theory Spec2Isabelle
  imports Main "HOL-Library.Multiset"
begin

section \<open>Python values, exceptions and the store\<close>

text \<open>
  The development embeds \<^verbatim>\<open>parallel_map\<close> of \<^verbatim>\<open>utils.py\<close>.
  \<open>exn\<close> stands for the instances of Python's \<^verbatim>\<open>Exception\<close>, the class the
  handler on line 97 catches; \<open>ValueError\<close> is what \<^verbatim>\<open>ThreadPoolExecutor\<close> raises
  for \<^verbatim>\<open>max_workers <= 0\<close>, \<open>TypeError\<close> what \<^verbatim>\<open>list.extend\<close> raises on an
  object that is not iterable and what a call \<^verbatim>\<open>function(**a)\<close> raises when \<^verbatim>\<open>a\<close> is
  not a mapping, \<open>StopIteration\<close> what \<^verbatim>\<open>next\<close> raises on an exhausted iterator.
\<close>

datatype exn = ZeroDivisionError | TypeError | ValueError | StopIteration | UserError string

datatype pyval =
    PyNone
  | PyInt int
  | PyStr string
  | PyList "pyval list"
  | PyDict "(string \<times> pyval) list"
  | PyExc exn

text \<open>How the work function is called: \<^verbatim>\<open>function(a)\<close> or \<^verbatim>\<open>function(**a)\<close>.\<close>

datatype args = Positional pyval | Keywords "(string \<times> pyval) list"

type_synonym work = "args \<Rightarrow> exn + pyval"

text \<open>The first argument: a list, or an iterator that yields the given elements.\<close>

datatype iterables = ListArg "pyval list" | IterArg "pyval list"

text \<open>
  The output list is a mutable object. It is either the caller's own list
  \<^verbatim>\<open>initial_value\<close> (a list of the caller's store, named by its address) or the list that
  \<^verbatim>\<open>list()\<close> creates on line 67.
\<close>

type_synonym addr = nat

datatype ref = Given addr | Created

text \<open>What tqdm displays: one update for each iteration of the loop it wraps.\<close>

datatype progress = SerialItem | TaskDone nat | Harvested

record state =
  heap :: "addr \<Rightarrow> pyval list"
  created :: "pyval list"
  calls :: "args list"
  shown :: "progress list"

record config =
  n_jobs :: int
  use_kwargs :: bool
  front_num :: int
  show_progress_bar :: bool
  initial_value :: "addr option"
  raise_errors :: bool
  include_errors :: bool
  extend_result :: bool
  return_output :: bool
  add_func :: "(pyval \<Rightarrow> pyval list \<Rightarrow> exn option \<times> pyval list) option"

text \<open>The default values of the keyword parameters (lines 11 to 16).\<close>

definition defaults :: config where
  "defaults = \<lparr> n_jobs = 16, use_kwargs = False, front_num = 3, show_progress_bar = True,
      initial_value = None, raise_errors = False, include_errors = True,
      extend_result = False, return_output = True, add_func = None \<rparr>"

text \<open>The error policy the two flags select, in the order lines 98 to 101 test them.\<close>

datatype policy = Raise | CollectAsEntry | Suppress

definition on_error :: "config \<Rightarrow> policy" where
  "on_error c = (if raise_errors c then Raise else if include_errors c then CollectAsEntry else Suppress)"

definition deref :: "state \<Rightarrow> ref \<Rightarrow> pyval list" where
  "deref s r = (case r of Given a \<Rightarrow> heap s a | Created \<Rightarrow> created s)"

definition assign :: "ref \<Rightarrow> pyval list \<Rightarrow> state \<Rightarrow> state" where
  "assign r ys s = (case r of Given a \<Rightarrow> s\<lparr>heap := (heap s)(a := ys)\<rparr> | Created \<Rightarrow> s\<lparr>created := ys\<rparr>)"

section \<open>List slices and iteration\<close>

text \<open>\<^verbatim>\<open>xs[:k]\<close> and \<^verbatim>\<open>xs[k:]\<close>: a negative bound counts from the end, and both clamp.\<close>

definition slice_to :: "'a list \<Rightarrow> int \<Rightarrow> 'a list" where
  "slice_to xs k = (if 0 \<le> k then take (nat k) xs else take (length xs - nat (- k)) xs)"

definition slice_from :: "'a list \<Rightarrow> int \<Rightarrow> 'a list" where
  "slice_from xs k = (if 0 \<le> k then drop (nat k) xs else drop (length xs - nat (- k)) xs)"

text \<open>The elements \<^verbatim>\<open>output.extend(x)\<close> appends; \<open>None\<close> when \<^verbatim>\<open>x\<close> is not iterable.\<close>

fun iterate :: "pyval \<Rightarrow> pyval list option" where
  "iterate (PyList xs) = Some xs"
| "iterate (PyStr s) = Some (map (\<lambda>ch. PyStr [ch]) s)"
| "iterate (PyDict kvs) = Some (map (\<lambda>kv. PyStr (fst kv)) kvs)"
| "iterate PyNone = None"
| "iterate (PyInt i) = None"
| "iterate (PyExc e) = None"

section \<open>Calling the work function\<close>

text \<open>
  \<^verbatim>\<open>function(**a) if use_kwargs else function(a)\<close>: binding the arguments fails with
  TypeError when \<^verbatim>\<open>a\<close> is not a mapping. The work function is taken to be
  deterministic; the state records each invocation.
\<close>

definition bind_args :: "bool \<Rightarrow> pyval \<Rightarrow> exn + args" where
  "bind_args kw a =
     (if kw then (case a of PyDict d \<Rightarrow> Inr (Keywords d) | _ \<Rightarrow> Inl TypeError)
      else Inr (Positional a))"

definition call :: "work \<Rightarrow> bool \<Rightarrow> pyval \<Rightarrow> state \<Rightarrow> (exn + pyval) \<times> state" where
  "call f kw a s =
     (case bind_args kw a of
        Inl e \<Rightarrow> (Inl e, s)
      | Inr ar \<Rightarrow> (f ar, s\<lparr>calls := calls s @ [ar]\<rparr>))"

text \<open>Line 45: the list comprehension over the warm-up slice.\<close>

fun call_each :: "work \<Rightarrow> bool \<Rightarrow> pyval list \<Rightarrow> state \<Rightarrow> (exn + pyval list) \<times> state" where
  "call_each f kw [] s = (Inr [], s)"
| "call_each f kw (a # as) s =
     (case call f kw a s of
        (Inl e, s') \<Rightarrow> (Inl e, s')
      | (Inr x, s') \<Rightarrow>
          (case call_each f kw as s' of
             (Inl e, s'') \<Rightarrow> (Inl e, s'')
           | (Inr xs, s'') \<Rightarrow> (Inr (x # xs), s'')))"

text \<open>Lines 49 to 51: \<^verbatim>\<open>next\<close> on the iterator, once for each of \<^verbatim>\<open>range(front_num)\<close>.\<close>

fun take_front :: "work \<Rightarrow> bool \<Rightarrow> nat \<Rightarrow> pyval list \<Rightarrow> state
    \<Rightarrow> (exn + pyval list \<times> pyval list) \<times> state" where
  "take_front f kw 0 it s = (Inr ([], it), s)"
| "take_front f kw (Suc n) [] s = (Inl StopIteration, s)"
| "take_front f kw (Suc n) (a # it) s =
     (case call f kw a s of
        (Inl e, s') \<Rightarrow> (Inl e, s')
      | (Inr x, s') \<Rightarrow>
          (case take_front f kw n it s' of
             (Inl e, s'') \<Rightarrow> (Inl e, s'')
           | (Inr (xs, rest), s'') \<Rightarrow> (Inr (x # xs, rest), s'')))"

text \<open>Lines 44 to 51: the warm-up results and the inputs that remain.\<close>

definition warm_up :: "iterables \<Rightarrow> work \<Rightarrow> config \<Rightarrow> state
    \<Rightarrow> (exn + pyval list \<times> pyval list) \<times> state" where
  "warm_up its f c s =
     (case its of
        ListArg xs \<Rightarrow>
          (case call_each f (use_kwargs c) (slice_to xs (front_num c)) s of
             (Inl e, s') \<Rightarrow> (Inl e, s')
           | (Inr front, s') \<Rightarrow> (Inr (front, slice_from xs (front_num c)), s'))
      | IterArg xs \<Rightarrow> take_front f (use_kwargs c) (nat (front_num c)) xs s)"

section \<open>Accumulation\<close>

text \<open>Lines 53 to 65: \<^verbatim>\<open>_add_func\<close>; the exception it raises, if any, and the new state.\<close>

definition inner_add_func :: "config \<Rightarrow> pyval \<Rightarrow> ref \<Rightarrow> state \<Rightarrow> exn option \<times> state" where
  "inner_add_func c x out s =
     (if \<not> return_output c then (None, s)
      else (case add_func c of
              Some g \<Rightarrow> (case g x (deref s out) of (e, ys) \<Rightarrow> (e, assign out ys s))
            | None \<Rightarrow>
                if extend_result c
                then (case iterate x of
                        None \<Rightarrow> (Some TypeError, s)
                      | Some zs \<Rightarrow> (None, assign out (deref s out @ zs) s))
                else (None, assign out (deref s out @ [x]) s)))"

text \<open>Line 67: \<^verbatim>\<open>initial_value or list()\<close>; an empty list is falsy.\<close>

definition make_output :: "config \<Rightarrow> state \<Rightarrow> ref \<times> state" where
  "make_output c s =
     (case initial_value c of
        Some a \<Rightarrow> if heap s a \<noteq> [] then (Given a, s) else (Created, s\<lparr>created := []\<rparr>)
      | None \<Rightarrow> (Created, s\<lparr>created := []\<rparr>))"

text \<open>Lines 68 and 69.\<close>

fun add_each :: "config \<Rightarrow> pyval list \<Rightarrow> ref \<Rightarrow> state \<Rightarrow> exn option \<times> state" where
  "add_each c [] out s = (None, s)"
| "add_each c (x # xs) out s =
     (case inner_add_func c x out s of
        (Some e, s') \<Rightarrow> (Some e, s')
      | (None, s') \<Rightarrow> add_each c xs out s')"

section \<open>The serial path\<close>

text \<open>Lines 73 to 75: no handler surrounds the call.\<close>

fun serial_loop :: "work \<Rightarrow> config \<Rightarrow> pyval list \<Rightarrow> ref \<Rightarrow> state \<Rightarrow> exn option \<times> state" where
  "serial_loop f c [] out s = (None, s)"
| "serial_loop f c (a # as) out s =
     (case call f (use_kwargs c) a (s\<lparr>shown := shown s @ [SerialItem]\<rparr>) of
        (Inl e, s') \<Rightarrow> (Some e, s')
      | (Inr x, s') \<Rightarrow>
          (case inner_add_func c x out s' of
             (Some e, s'') \<Rightarrow> (Some e, s'')
           | (None, s'') \<Rightarrow> serial_loop f c as out s''))"

section \<open>The pool\<close>

text \<open>
  Lines 80 to 83: \<^verbatim>\<open>pool.submit\<close> for each remaining input, in order. Binding
  \<^verbatim>\<open>**a\<close> happens in the submitting thread, so a TypeError there ends the comprehension;
  the tasks submitted before it still run.
\<close>

fun submit_all :: "bool \<Rightarrow> pyval list \<Rightarrow> args list \<times> exn option" where
  "submit_all kw [] = ([], None)"
| "submit_all kw (a # as) =
     (case bind_args kw a of
        Inl e \<Rightarrow> ([], Some e)
      | Inr ar \<Rightarrow> (case submit_all kw as of (ts, e) \<Rightarrow> (ar # ts, e)))"

text \<open>
  The order in which the tasks run to completion is not determined by the program. The
  workers take tasks in submission order and at most \<open>w\<close> of them run at a time, so the
  next task to complete is one of the first \<open>w\<close> tasks that have not completed; the list
  \<open>picks\<close> says which one, each time.
\<close>

function completion_order :: "nat \<Rightarrow> 'a list \<Rightarrow> nat list \<Rightarrow> 'a list" where
  "completion_order w [] picks = []"
| "completion_order w (t # ts) picks =
     (let k = (case picks of [] \<Rightarrow> 0 | p # _ \<Rightarrow> p mod (min (max w 1) (Suc (length ts))))
      in (t # ts) ! k # completion_order w (take k (t # ts) @ drop (Suc k) (t # ts)) (tl picks))"
  by pat_completeness auto
termination
proof (relation "measure (\<lambda>(w, ts, picks). length ts)")
  show "wf (measure (\<lambda>(w, ts, picks). length ts))" by simp
next
  fix w :: nat and t :: 'a and ts :: "'a list" and picks :: "nat list" and k :: nat
  assume k: "k = (case picks of [] \<Rightarrow> 0 | p # _ \<Rightarrow> p mod (min (max w 1) (Suc (length ts))))"
  have "k < Suc (length ts)"
  proof (cases picks)
    case Nil
    with k show ?thesis by simp
  next
    case (Cons p ps)
    have "p mod (min (max w 1) (Suc (length ts))) < min (max w 1) (Suc (length ts))"
      by (rule mod_less_divisor) simp
    with k Cons show ?thesis by simp
  qed
  then show "((w, take k (t # ts) @ drop (Suc k) (t # ts), tl picks), (w, t # ts, picks))
      \<in> measure (\<lambda>(w, ts, picks). length ts)"
    by (simp add: min_def)
qed

text \<open>
  Lines 79 to 88: the pool runs every submitted task before the \<^verbatim>\<open>with\<close> block is
  left; the result is the outcome each future holds, in submission order.
\<close>

definition pool_phase :: "work \<Rightarrow> config \<Rightarrow> pyval list \<Rightarrow> nat list \<Rightarrow> state
    \<Rightarrow> (exn + (exn + pyval) list) \<times> state" where
  "pool_phase f c rest picks s =
     (if n_jobs c \<le> 0 then (Inl ValueError, s)
      else (case submit_all (use_kwargs c) rest of (tasks, failed) \<Rightarrow>
        let order = completion_order (nat (n_jobs c)) (zip [0 ..< length tasks] tasks) picks;
            s1 = s\<lparr>calls := calls s @ map snd order\<rparr>
        in (case failed of
              Some e \<Rightarrow> (Inl e, s1)
            | None \<Rightarrow>
                (Inr (map f tasks),
                 s1\<lparr>shown := shown s1 @
                   (if show_progress_bar c then map (\<lambda>t. TaskDone (fst t)) order else [])\<rparr>))))"

text \<open>Lines 94 to 101: the results are read in submission order.\<close>

fun harvest :: "config \<Rightarrow> (exn + pyval) list \<Rightarrow> ref \<Rightarrow> state \<Rightarrow> exn option \<times> state" where
  "harvest c [] out s = (None, s)"
| "harvest c (r # rs) out s =
     (case (case r of
              Inr v \<Rightarrow> inner_add_func c v out (s\<lparr>shown := shown s @ [Harvested]\<rparr>)
            | Inl e \<Rightarrow> (Some e, s\<lparr>shown := shown s @ [Harvested]\<rparr>)) of
        (None, s') \<Rightarrow> harvest c rs out s'
      | (Some e, s') \<Rightarrow>
          if raise_errors c then (Some e, s')
          else if include_errors c
          then (case inner_add_func c (PyExc e) out s' of
                  (Some e', s'') \<Rightarrow> (Some e', s'')
                | (None, s'') \<Rightarrow> harvest c rs out s'')
          else harvest c rs out s')"

section \<open>parallel\_map\<close>

text \<open>
  The result is the exception the call raises (\<open>Inl\<close>) or what it returns: a reference
  to the output list, or None.
\<close>

definition parallel_map :: "iterables \<Rightarrow> work \<Rightarrow> config \<Rightarrow> nat list \<Rightarrow> state
    \<Rightarrow> (exn + ref option) \<times> state" where
  "parallel_map its f c picks s =
     (case warm_up its f c s of
        (Inl e, s1) \<Rightarrow> (Inl e, s1)
      | (Inr (front, rest), s1) \<Rightarrow>
          (case make_output c s1 of (out, s2) \<Rightarrow>
            (case add_each c front out s2 of
               (Some e, s3) \<Rightarrow> (Inl e, s3)
             | (None, s3) \<Rightarrow>
                 if n_jobs c = 1
                 then (case serial_loop f c rest out s3 of
                         (Some e, s4) \<Rightarrow> (Inl e, s4)
                       | (None, s4) \<Rightarrow> (Inr (if return_output c then Some out else None), s4))
                 else (case pool_phase f c rest picks s3 of
                         (Inl e, s4) \<Rightarrow> (Inl e, s4)
                       | (Inr futures, s4) \<Rightarrow>
                           if \<not> return_output c then (Inr None, s4)
                           else (case harvest c futures out s4 of
                                   (Some e, s5) \<Rightarrow> (Inl e, s5)
                                 | (None, s5) \<Rightarrow> (Inr (Some out), s5))))))"

section \<open>Notions used to state the properties\<close>

text \<open>The inputs, whichever way they are passed.\<close>

definition elements :: "iterables \<Rightarrow> pyval list" where
  "elements its = (case its of ListArg xs \<Rightarrow> xs | IterArg xs \<Rightarrow> xs)"

text \<open>
  The inputs of the warm-up (lines 45 and 49 to 51) and the inputs that remain after it
  (line 46, or what is left of the iterator).
\<close>

definition front_part :: "iterables \<Rightarrow> config \<Rightarrow> pyval list" where
  "front_part its c =
     (case its of ListArg xs \<Rightarrow> slice_to xs (front_num c) | IterArg xs \<Rightarrow> take (nat (front_num c)) xs)"

definition rest_part :: "iterables \<Rightarrow> config \<Rightarrow> pyval list" where
  "rest_part its c =
     (case its of ListArg xs \<Rightarrow> slice_from xs (front_num c) | IterArg xs \<Rightarrow> drop (nat (front_num c)) xs)"

text \<open>
  The outcome of \<^verbatim>\<open>function(**a) if use_kwargs else function(a)\<close> on one input:
  the value returned or the exception raised.
\<close>

definition outcome :: "work \<Rightarrow> bool \<Rightarrow> pyval \<Rightarrow> exn + pyval" where
  "outcome f kw a = (case bind_args kw a of Inl e \<Rightarrow> Inl e | Inr ar \<Rightarrow> f ar)"

text \<open>An input fits the calling convention when binding its arguments raises nothing.\<close>

definition fits :: "bool \<Rightarrow> pyval \<Rightarrow> bool" where
  "fits kw a = (\<not> isl (bind_args kw a))"

text \<open>The argument bindings of the inputs that fit, in order.\<close>

fun bound :: "bool \<Rightarrow> pyval list \<Rightarrow> args list" where
  "bound kw [] = []"
| "bound kw (a # as) = (case bind_args kw a of Inl e \<Rightarrow> bound kw as | Inr ar \<Rightarrow> ar # bound kw as)"

text \<open>An outcome as an entry of the output: the value, or the exception object.\<close>

definition entry :: "exn + pyval \<Rightarrow> pyval" where
  "entry r = (case r of Inr v \<Rightarrow> v | Inl e \<Rightarrow> PyExc e)"

text \<open>The values among a list of outcomes, in order.\<close>

definition values_of :: "(exn + pyval) list \<Rightarrow> pyval list" where
  "values_of rs = concat (map (\<lambda>r. case r of Inl e \<Rightarrow> [] | Inr v \<Rightarrow> [v]) rs)"

text \<open>What lines 97 to 101 keep of the outcomes when nothing is raised.\<close>

definition kept :: "config \<Rightarrow> (exn + pyval) list \<Rightarrow> pyval list" where
  "kept c rs = (if include_errors c then map entry rs else values_of rs)"

text \<open>
  Two states agree when they hold the same lists and the same invocations of the work
  function: they differ at most in what has been shown.
\<close>

definition agree :: "state \<Rightarrow> state \<Rightarrow> bool" where
  "agree s t = (heap s = heap t \<and> created s = created t \<and> calls s = calls t)"

section \<open>Example inputs\<close>

text \<open>\<^verbatim>\<open>lambda x: x * x\<close> and \<^verbatim>\<open>lambda x: 10 // x\<close> on integers.\<close>

fun square :: work where
  "square (Positional (PyInt x)) = Inr (PyInt (x * x))"
| "square _ = Inl TypeError"

fun ten_div :: work where
  "ten_div (Positional (PyInt x)) = (if x = 0 then Inl ZeroDivisionError else Inr (PyInt (10 div x)))"
| "ten_div _ = Inl TypeError"

text \<open>A store in which every list of the caller is empty; nothing called or shown yet.\<close>

definition start :: state where
  "start = \<lparr>heap = (\<lambda>a. []), created = [], calls = [], shown = []\<rparr>"

text \<open>The same, with the list \<^verbatim>\<open>[7]\<close> of the caller at address 0.\<close>

definition seeded :: state where
  "seeded = start\<lparr>heap := (\<lambda>a. if a = 0 then [PyInt 7] else [])\<rparr>"

text \<open>Two workers, one warm-up input, errors raised.\<close>

definition squares_config :: config where
  "squares_config = defaults\<lparr>n_jobs := 2, front_num := 1, raise_errors := True\<rparr>"

text \<open>One worker, no warm-up, the default policy (errors collected as entries).\<close>

definition collect_config :: config where
  "collect_config = defaults\<lparr>n_jobs := 1, front_num := 0\<rparr>"

text \<open>Two workers, two warm-up inputs, errors suppressed.\<close>

definition suppress_config :: config where
  "suppress_config = defaults\<lparr>n_jobs := 2, front_num := 2, include_errors := False\<rparr>"

text \<open>Configurations outside the documented preconditions: no worker; a negative warm-up count.\<close>

definition no_workers_config :: config where
  "no_workers_config = defaults\<lparr>n_jobs := 0, front_num := 1\<rparr>"

definition negative_front_config :: config where
  "negative_front_config = defaults\<lparr>n_jobs := 2, front_num := - 1\<rparr>"

text \<open>Errors raised, no output returned, several workers.\<close>

definition no_output_config :: config where
  "no_output_config = defaults\<lparr>n_jobs := 2, front_num := 0, raise_errors := True, return_output := False\<rparr>"

definition silent_config :: config where
  "silent_config = defaults\<lparr>n_jobs := 4, front_num := 0, raise_errors := True, return_output := False\<rparr>"

text \<open>Custom accumulators: one that adds nothing, one that inserts at the front.\<close>

definition discarding_config :: config where
  "discarding_config = defaults\<lparr>n_jobs := 2, front_num := 0, add_func := Some (\<lambda>x ys. (None, ys))\<rparr>"

definition prepending_config :: config where
  "prepending_config = defaults\<lparr>n_jobs := 2, front_num := 0, include_errors := False,
     add_func := Some (\<lambda>x ys. (None, x # ys))\<rparr>"

text \<open>Two workers and no warm-up, errors collected or suppressed.\<close>

definition pooled_collect_config :: config where
  "pooled_collect_config = defaults\<lparr>n_jobs := 2, front_num := 0\<rparr>"

definition pooled_suppress_config :: config where
  "pooled_suppress_config = defaults\<lparr>n_jobs := 2, front_num := 0, include_errors := False\<rparr>"

text \<open>Errors raised, with the list at address 0 as initial value.\<close>

definition seeded_config :: config where
  "seeded_config = defaults\<lparr>n_jobs := 2, front_num := 0, raise_errors := True, initial_value := Some 0\<rparr>"

text \<open>Errors raised, two workers, one warm-up input.\<close>

definition raise_config :: config where
  "raise_config = defaults\<lparr>n_jobs := 2, front_num := 1, raise_errors := True\<rparr>"

text \<open>No output returned, two workers, one warm-up input.\<close>

definition effects_config :: config where
  "effects_config = defaults\<lparr>n_jobs := 2, front_num := 1, return_output := False\<rparr>"

section \<open>Auxiliary facts\<close>

lemma bound_append: "bound kw (xs @ ys) = bound kw xs @ bound kw ys"
  by (induction xs) (auto split: sum.splits)

lemma call_outcome: "fst (call f kw a s) = outcome f kw a"
  by (simp add: call_def outcome_def split: sum.splits)

lemma call_eq: "call f kw a s = (outcome f kw a, s\<lparr>calls := calls s @ bound kw [a]\<rparr>)"
  by (simp add: call_def outcome_def split: sum.splits)

lemma bound_Cons: "bound kw (a # as) = bound kw [a] @ bound kw as"
  by (simp split: sum.splits)

lemma call_each_ok:
  "\<forall>a \<in> set xs. \<not> isl (outcome f kw a) \<Longrightarrow>
   call_each f kw xs s = (Inr (map (\<lambda>a. entry (outcome f kw a)) xs), s\<lparr>calls := calls s @ bound kw xs\<rparr>)"
proof (induction xs arbitrary: s)
  case Nil
  then show ?case by simp
next
  case (Cons a as)
  from Cons.prems obtain v where v: "outcome f kw a = Inr v"
    by (cases "outcome f kw a") auto
  from Cons.prems have rest: "\<forall>a \<in> set as. \<not> isl (outcome f kw a)" by simp
  show ?case
    by (simp add: call_eq v Cons.IH [OF rest] bound_Cons [of kw a as] entry_def del: bound.simps)
qed

lemma take_front_ok:
  "\<forall>a \<in> set (take n xs). \<not> isl (outcome f kw a) \<Longrightarrow> n \<le> length xs \<Longrightarrow>
   take_front f kw n xs s =
     (Inr (map (\<lambda>a. entry (outcome f kw a)) (take n xs), drop n xs),
      s\<lparr>calls := calls s @ bound kw (take n xs)\<rparr>)"
proof (induction n arbitrary: xs s)
  case 0
  then show ?case by simp
next
  case (Suc n)
  then obtain a as where xs: "xs = a # as" by (cases xs) auto
  from Suc.prems xs obtain v where v: "outcome f kw a = Inr v"
    by (cases "outcome f kw a") auto
  from Suc.prems xs have rest: "\<forall>a \<in> set (take n as). \<not> isl (outcome f kw a)" "n \<le> length as"
    by simp_all
  show ?case
    by (simp add: xs call_eq v Suc.IH [OF rest] bound_Cons [of kw a "take n as"] entry_def del: bound.simps)
qed

lemma slices_append: "slice_to xs k @ slice_from xs k = xs"
  by (simp add: slice_to_def slice_from_def)

lemma deref_shown [simp]: "deref (s\<lparr>shown := x\<rparr>) out = deref s out"
  by (simp add: deref_def split: ref.splits)

lemma deref_calls [simp]: "deref (s\<lparr>calls := x\<rparr>) out = deref s out"
  by (simp add: deref_def split: ref.splits)

lemma deref_assign [simp]: "deref (assign out ys s) out = ys"
  by (simp add: deref_def assign_def split: ref.splits)

lemma assign_assign [simp]: "assign out ys (assign out zs s) = assign out ys s"
  by (simp add: assign_def split: ref.splits)

lemma assign_deref [simp]: "assign out (deref s out) s = s"
  by (simp add: assign_def deref_def split: ref.splits)

lemma assign_shown: "assign out ys (s\<lparr>shown := x\<rparr>) = (assign out ys s)\<lparr>shown := x\<rparr>"
  by (simp add: assign_def split: ref.splits)

lemma assign_calls: "assign out ys (s\<lparr>calls := x\<rparr>) = (assign out ys s)\<lparr>calls := x\<rparr>"
  by (simp add: assign_def split: ref.splits)

lemma shown_assign [simp]: "shown (assign out ys s) = shown s"
  by (simp add: assign_def split: ref.splits)

lemma calls_assign [simp]: "calls (assign out ys s) = calls s"
  by (simp add: assign_def split: ref.splits)

text \<open>With no custom accumulator and in Append mode, accumulation raises nothing.\<close>

lemma inner_add_func_append:
  "add_func c = None \<Longrightarrow> \<not> extend_result c \<Longrightarrow>
   inner_add_func c x out s =
     (None, if return_output c then assign out (deref s out @ [x]) s else s)"
  by (simp add: inner_add_func_def)

lemma add_each_append:
  "add_func c = None \<Longrightarrow> \<not> extend_result c \<Longrightarrow>
   add_each c xs out s =
     (None, if return_output c then assign out (deref s out @ xs) s else s)"
  by (induction xs arbitrary: s) (simp_all add: inner_add_func_append)

lemma serial_loop_prefix:
  assumes "add_func c = None" "\<not> extend_result c"
    and "\<forall>a \<in> set pre. \<not> isl (outcome f (use_kwargs c) a)"
  shows "serial_loop f c (pre @ rest) out s =
     serial_loop f c rest out
       ((if return_output c
         then assign out (deref s out @ map (\<lambda>a. entry (outcome f (use_kwargs c) a)) pre) s
         else s)
        \<lparr>calls := calls s @ bound (use_kwargs c) pre,
         shown := shown s @ replicate (length pre) SerialItem\<rparr>)"
  using assms(3)
proof (induction pre arbitrary: s)
  case Nil
  then show ?case by simp
next
  case (Cons a as)
  from Cons.prems obtain v where v: "outcome f (use_kwargs c) a = Inr v"
    by (cases "outcome f (use_kwargs c) a") auto
  from Cons.prems have rest: "\<forall>a \<in> set as. \<not> isl (outcome f (use_kwargs c) a)" by simp
  show ?case
    by (simp add: call_eq v inner_add_func_append assms(1,2) Cons.IH [OF rest]
        bound_Cons [of _ a as] entry_def assign_shown assign_calls
        replicate_append_same del: bound.simps)
qed

lemma succeeds_fits: "\<not> isl (outcome f kw a) \<Longrightarrow> fits kw a"
  by (auto simp: outcome_def fits_def split: sum.splits)

lemma submit_all_fits:
  "\<forall>a \<in> set xs. fits kw a \<Longrightarrow> submit_all kw xs = (bound kw xs, None)"
  by (induction xs) (auto simp: fits_def split: sum.splits)

lemma map_bound_fits:
  "\<forall>a \<in> set xs. fits kw a \<Longrightarrow> map f (bound kw xs) = map (outcome f kw) xs"
  by (induction xs) (auto simp: fits_def outcome_def split: sum.splits)

lemma length_bound_fits:
  "\<forall>a \<in> set xs. fits kw a \<Longrightarrow> length (bound kw xs) = length xs"
  by (induction xs) (auto simp: fits_def split: sum.splits)

lemma submit_all_bound: "fst (submit_all kw xs) = bound kw (takeWhile (fits kw) xs)"
  by (induction xs) (auto simp: fits_def split: sum.splits prod.splits)

lemma bind_args_error: "bind_args kw a = Inl e \<Longrightarrow> e = TypeError"
  by (auto simp: bind_args_def split: if_splits pyval.splits)

lemma submit_all_failed:
  "snd (submit_all kw xs) = (if \<forall>a \<in> set xs. fits kw a then None else Some TypeError)"
proof (induction xs)
  case Nil
  then show ?case by simp
next
  case (Cons a as)
  show ?case
  proof (cases "bind_args kw a")
    case (Inl e)
    then show ?thesis using bind_args_error [OF Inl] by (simp add: fits_def)
  next
    case (Inr ar)
    then show ?thesis using Cons.IH by (cases "submit_all kw as") (auto simp: fits_def)
  qed
qed

lemma mset_remove_nth:
  "k < length xs \<Longrightarrow> add_mset (xs ! k) (mset (take k xs @ drop (Suc k) xs)) = mset xs"
proof -
  assume k: "k < length xs"
  then have "xs = take k xs @ xs ! k # drop (Suc k) xs"
    by (simp add: id_take_nth_drop)
  then have "mset xs = mset (take k xs @ xs ! k # drop (Suc k) xs)" by simp
  then show ?thesis by simp
qed

lemma mset_completion_order: "mset (completion_order w ts picks) = mset ts"
proof (induction w ts picks rule: completion_order.induct)
  case (1 w picks)
  then show ?case by simp
next
  case (2 w t ts picks)
  define k where "k = (case picks of [] \<Rightarrow> 0 | p # _ \<Rightarrow> p mod (min (max w 1) (Suc (length ts))))"
  have "k < Suc (length ts)"
  proof (cases picks)
    case Nil
    then show ?thesis by (simp add: k_def)
  next
    case (Cons p ps)
    have "p mod (min (max w 1) (Suc (length ts))) < min (max w 1) (Suc (length ts))"
      by (rule mod_less_divisor) simp
    with Cons show ?thesis by (simp add: k_def)
  qed
  then have k: "k < length (t # ts)" by simp
  have IH: "mset (completion_order w (take k (t # ts) @ drop (Suc k) (t # ts)) (tl picks))
      = mset (take k (t # ts) @ drop (Suc k) (t # ts))"
    using "2.IH" [of k] by (simp add: k_def)
  have "completion_order w (t # ts) picks =
      (t # ts) ! k # completion_order w (take k (t # ts) @ drop (Suc k) (t # ts)) (tl picks)"
    by (simp add: k_def Let_def)
  then have "mset (completion_order w (t # ts) picks) =
      add_mset ((t # ts) ! k) (mset (take k (t # ts) @ drop (Suc k) (t # ts)))"
    using IH by simp
  also have "\<dots> = mset (t # ts)" using mset_remove_nth [OF k] .
  finally show ?case .
qed

lemma mset_snd_completion_order:
  "mset (map snd (completion_order w (zip [0 ..< length ts] ts) picks)) = mset ts"
proof -
  have zip: "map snd (zip [0 ..< length ts] ts) = ts" by (rule map_snd_zip) simp
  have "mset (map snd (completion_order w (zip [0 ..< length ts] ts) picks))
      = image_mset snd (mset (completion_order w (zip [0 ..< length ts] ts) picks))"
    by simp
  also have "\<dots> = image_mset snd (mset (zip [0 ..< length ts] ts))"
    by (simp only: mset_completion_order)
  also have "\<dots> = mset (map snd (zip [0 ..< length ts] ts))" by (simp only: mset_map)
  finally show ?thesis by (simp only: zip)
qed

lemma entry_simps [simp]: "entry (Inr v) = v" "entry (Inl e) = PyExc e"
  by (simp_all add: entry_def)

lemma harvest_prefix:
  assumes "add_func c = None" "\<not> extend_result c"
    and "\<forall>r \<in> set pre. \<not> isl r"
  shows "harvest c (pre @ rs) out s =
     harvest c rs out
       ((if return_output c then assign out (deref s out @ map entry pre) s else s)
        \<lparr>shown := shown s @ replicate (length pre) Harvested\<rparr>)"
  using assms(3)
proof (induction pre arbitrary: s)
  case Nil
  then show ?case by simp
next
  case (Cons r pre)
  from Cons.prems obtain v where v: "r = Inr v" by (cases r) auto
  from Cons.prems have rest: "\<forall>r \<in> set pre. \<not> isl r" by simp
  show ?case
    by (simp add: v inner_add_func_append assms(1,2) Cons.IH [OF rest]
        assign_shown replicate_append_same)
qed

lemma kept_Cons:
  "kept c (r # rs) =
     (case r of Inr v \<Rightarrow> [v] | Inl e \<Rightarrow> if include_errors c then [PyExc e] else []) @ kept c rs"
  by (simp add: kept_def values_of_def entry_def split: sum.splits)

lemma harvest_no_raise:
  assumes "add_func c = None" "\<not> extend_result c" "\<not> raise_errors c"
  shows "harvest c rs out s =
     (None, (if return_output c then assign out (deref s out @ kept c rs) s else s)
        \<lparr>shown := shown s @ replicate (length rs) Harvested\<rparr>)"
proof (induction rs arbitrary: s)
  case Nil
  then show ?case by (simp add: kept_def values_of_def)
next
  case (Cons r rs)
  show ?case
    by (cases r)
      (simp_all add: inner_add_func_append assms Cons.IH kept_Cons assign_shown
        replicate_append_same)
qed

lemma front_rest: "front_part its c @ rest_part its c = elements its"
  by (simp add: front_part_def rest_part_def elements_def slices_append split: iterables.splits)

lemma warm_up_ok:
  assumes "\<forall>a \<in> set (front_part its c). \<not> isl (outcome f (use_kwargs c) a)"
    and "front_num c \<le> int (length (elements its))"
  shows "warm_up its f c s =
     (Inr (map (\<lambda>a. entry (outcome f (use_kwargs c) a)) (front_part its c), rest_part its c),
      s\<lparr>calls := calls s @ bound (use_kwargs c) (front_part its c)\<rparr>)"
proof (cases its)
  case (ListArg xs)
  with assms(1) show ?thesis
    by (simp add: warm_up_def front_part_def rest_part_def call_each_ok)
next
  case (IterArg xs)
  with assms(2) have "nat (front_num c) \<le> length xs" by (simp add: elements_def)
  with assms(1) IterArg show ?thesis
    by (simp add: warm_up_def front_part_def rest_part_def take_front_ok)
qed

lemma make_output_None:
  "initial_value c = None \<Longrightarrow> make_output c s = (Created, s\<lparr>created := []\<rparr>)"
  by (simp add: make_output_def)

lemma pool_phase_fst:
  assumes "0 < n_jobs c" "\<forall>a \<in> set rest. fits (use_kwargs c) a"
  shows "fst (pool_phase f c rest picks s) = Inr (map (outcome f (use_kwargs c)) rest)"
  using assms
  by (simp add: pool_phase_def submit_all_fits map_bound_fits Let_def)

lemma pool_phase_frame:
  "heap (snd (pool_phase f c rest picks s)) = heap s"
  "created (snd (pool_phase f c rest picks s)) = created s"
  by (simp_all add: pool_phase_def Let_def split: prod.splits option.splits)

lemma pool_phase_deref [simp]: "deref (snd (pool_phase f c rest picks s)) out = deref s out"
  by (simp add: deref_def pool_phase_frame split: ref.splits)

lemma pool_phase_calls:
  assumes "0 < n_jobs c"
  shows "mset (calls (snd (pool_phase f c rest picks s)))
    = mset (calls s) + mset (bound (use_kwargs c) (takeWhile (fits (use_kwargs c)) rest))"
proof -
  obtain tasks failed where sub: "submit_all (use_kwargs c) rest = (tasks, failed)"
    by (cases "submit_all (use_kwargs c) rest")
  have tasks: "tasks = bound (use_kwargs c) (takeWhile (fits (use_kwargs c)) rest)"
    using submit_all_bound [of "use_kwargs c" rest] sub by simp
  have "calls (snd (pool_phase f c rest picks s)) =
      calls s @ map snd (completion_order (nat (n_jobs c)) (zip [0 ..< length tasks] tasks) picks)"
    using assms by (simp add: pool_phase_def sub Let_def split: option.splits)
  then show ?thesis
    by (simp only: mset_append mset_snd_completion_order tasks)
qed

lemma map_Inr_entry: "\<forall>r \<in> set rs. \<not> isl r \<Longrightarrow> map Inr (map entry rs) = rs"
  by (induction rs) (auto simp: entry_def split: sum.splits)

lemma call_each_first_failure:
  assumes "\<forall>a \<in> set pre. \<not> isl (outcome f kw a)" "outcome f kw a = Inl e"
  shows "call_each f kw (pre @ a # post) s = (Inl e, s\<lparr>calls := calls s @ bound kw (pre @ [a])\<rparr>)"
  using assms(1)
proof (induction pre arbitrary: s)
  case Nil
  then show ?case by (simp add: call_eq assms(2) del: bound.simps)
next
  case (Cons b pre)
  from Cons.prems obtain v where v: "outcome f kw b = Inr v"
    by (cases "outcome f kw b") auto
  from Cons.prems have rest: "\<forall>a \<in> set pre. \<not> isl (outcome f kw a)" by simp
  show ?case
    by (simp add: call_eq v Cons.IH [OF rest] bound_Cons [of kw b "pre @ [a]"] del: bound.simps)
qed

lemma take_front_first_failure:
  assumes "\<forall>a \<in> set pre. \<not> isl (outcome f kw a)" "outcome f kw a = Inl e"
  shows "length pre < n \<Longrightarrow>
    take_front f kw n (pre @ a # post) s = (Inl e, s\<lparr>calls := calls s @ bound kw (pre @ [a])\<rparr>)"
  using assms(1)
proof (induction pre arbitrary: s n)
  case Nil
  then obtain m where "n = Suc m" by (cases n) auto
  then show ?case by (simp add: call_eq assms(2) del: bound.simps)
next
  case (Cons b pre)
  from Cons.prems obtain m where n: "n = Suc m" and m: "length pre < m" by (cases n) auto
  from Cons.prems obtain v where v: "outcome f kw b = Inr v"
    by (cases "outcome f kw b") auto
  from Cons.prems have rest: "\<forall>a \<in> set pre. \<not> isl (outcome f kw a)" by simp
  show ?case
    by (simp add: n call_eq v Cons.IH [OF m rest] bound_Cons [of kw b "pre @ [a]"] del: bound.simps)
qed

lemma warm_up_first_failure:
  assumes pre: "\<forall>a \<in> set pre. \<not> isl (outcome f (use_kwargs c) a)"
    and a: "outcome f (use_kwargs c) a = Inl e"
    and split: "front_part its c = pre @ a # post"
  shows "warm_up its f c s = (Inl e, s\<lparr>calls := calls s @ bound (use_kwargs c) (pre @ [a])\<rparr>)"
proof (cases its)
  case (ListArg xs)
  with split show ?thesis
    by (simp add: warm_up_def front_part_def call_each_first_failure [OF pre a])
next
  case (IterArg xs)
  with split have t: "take (nat (front_num c)) xs = pre @ a # post" by (simp add: front_part_def)
  then have "length (pre @ a # post) \<le> nat (front_num c)"
    by (metis length_take min.cobounded2)
  then have len: "length pre < nat (front_num c)" by simp
  have "xs = (pre @ a # post) @ drop (nat (front_num c)) xs"
    using append_take_drop_id [of "nat (front_num c)" xs] t by simp
  then have xs: "xs = pre @ a # (post @ drop (nat (front_num c)) xs)" by simp
  have "take_front f (use_kwargs c) (nat (front_num c)) (pre @ a # (post @ drop (nat (front_num c)) xs)) s
      = (Inl e, s\<lparr>calls := calls s @ bound (use_kwargs c) (pre @ [a])\<rparr>)"
    by (rule take_front_first_failure [OF pre a len])
  with xs IterArg show ?thesis by (simp add: warm_up_def)
qed

lemma inner_add_func_calls [simp]: "calls (snd (inner_add_func c x out s)) = calls s"
  by (simp add: inner_add_func_def split: option.splits prod.splits)

lemma add_each_calls [simp]: "calls (snd (add_each c xs out s)) = calls s"
proof (induction xs arbitrary: s)
  case Nil
  then show ?case by simp
next
  case (Cons x xs)
  obtain e s' where r: "inner_add_func c x out s = (e, s')" by (cases "inner_add_func c x out s")
  then have "calls s' = calls s" using inner_add_func_calls [of c x out s] by simp
  with r Cons.IH [of s'] show ?case by (cases e) simp_all
qed

lemma make_output_calls [simp]: "calls (snd (make_output c s)) = calls s"
  by (simp add: make_output_def split: option.splits)

lemma inner_add_func_no_output: "\<not> return_output c \<Longrightarrow> inner_add_func c x out s = (None, s)"
  by (simp add: inner_add_func_def)

lemma add_each_no_output: "\<not> return_output c \<Longrightarrow> add_each c xs out s = (None, s)"
  by (induction xs arbitrary: s) (simp_all add: inner_add_func_no_output)

lemma pool_phase_result:
  "0 < n_jobs c \<Longrightarrow>
   fst (pool_phase f c rest picks s) =
     (if \<forall>a \<in> set rest. fits (use_kwargs c) a then Inr (map (outcome f (use_kwargs c)) rest)
      else Inl TypeError)"
proof -
  assume pos: "0 < n_jobs c"
  obtain tasks failed where sub: "submit_all (use_kwargs c) rest = (tasks, failed)"
    by (cases "submit_all (use_kwargs c) rest")
  have failed: "failed = (if \<forall>a \<in> set rest. fits (use_kwargs c) a then None else Some TypeError)"
    using submit_all_failed [of "use_kwargs c" rest] sub by simp
  show ?thesis
  proof (cases "\<forall>a \<in> set rest. fits (use_kwargs c) a")
    case True
    then show ?thesis using pool_phase_fst [OF pos True] by simp
  next
    case False
    then show ?thesis using pos failed by (auto simp: pool_phase_def sub Let_def)
  qed
qed

lemma agree_refl [simp]: "agree s s"
  by (simp add: agree_def)

lemma agree_deref: "agree s t \<Longrightarrow> deref s out = deref t out"
  by (simp add: agree_def deref_def split: ref.splits)

lemma agree_assign: "agree s t \<Longrightarrow> agree (assign out ys s) (assign out ys t)"
  by (simp add: agree_def assign_def split: ref.splits)

lemma agree_shown: "agree s t \<Longrightarrow> agree (s\<lparr>shown := x\<rparr>) (t\<lparr>shown := y\<rparr>)"
  by (simp add: agree_def)

lemma agree_inner_add_func:
  assumes "agree s t"
  shows "fst (inner_add_func c x out s) = fst (inner_add_func c x out t) \<and>
    agree (snd (inner_add_func c x out s)) (snd (inner_add_func c x out t))"
  using assms agree_deref [OF assms, of out]
  by (auto simp: inner_add_func_def agree_assign split: option.splits prod.splits)

lemma agree_harvest:
  "agree s t \<Longrightarrow>
   fst (harvest c rs out s) = fst (harvest c rs out t) \<and>
   agree (snd (harvest c rs out s)) (snd (harvest c rs out t))"
proof (induction rs arbitrary: s t)
  case Nil
  then show ?case by simp
next
  case (Cons r rs)
  let ?s = "s\<lparr>shown := shown s @ [Harvested]\<rparr>" and ?t = "t\<lparr>shown := shown t @ [Harvested]\<rparr>"
  have st: "agree ?s ?t" using Cons.prems by (rule agree_shown)
  show ?case
  proof (cases r)
    case (Inl e)
    show ?thesis
    proof (cases "raise_errors c")
      case True
      with Inl st show ?thesis by simp
    next
      case False
      show ?thesis
      proof (cases "include_errors c")
        case True
        obtain e1 s1 where a1: "inner_add_func c (PyExc e) out ?s = (e1, s1)"
          by (cases "inner_add_func c (PyExc e) out ?s")
        obtain e2 t1 where a2: "inner_add_func c (PyExc e) out ?t = (e2, t1)"
          by (cases "inner_add_func c (PyExc e) out ?t")
        from agree_inner_add_func [OF st, of c "PyExc e" out] a1 a2
        have eq: "e1 = e2" and ag: "agree s1 t1" by simp_all
        show ?thesis
          using Cons.IH [OF ag] ag
          by (cases e2) (simp_all add: Inl False True a1 a2 eq)
      next
        case incl: False
        with Inl False Cons.IH [OF st] show ?thesis by simp
      qed
    qed
  next
    case (Inr v)
    obtain e1 s1 where a1: "inner_add_func c v out ?s = (e1, s1)"
      by (cases "inner_add_func c v out ?s")
    obtain e2 t1 where a2: "inner_add_func c v out ?t = (e2, t1)"
      by (cases "inner_add_func c v out ?t")
    from agree_inner_add_func [OF st, of c v out] a1 a2
    have eq: "e1 = e2" and ag: "agree s1 t1" by simp_all
    show ?thesis
    proof (cases e2)
      case None
      with Cons.IH [OF ag] show ?thesis by (simp add: Inr a1 a2 eq)
    next
      case (Some e)
      show ?thesis
      proof (cases "raise_errors c")
        case True
        with Some ag show ?thesis by (simp add: Inr a1 a2 eq)
      next
        case False
        show ?thesis
        proof (cases "include_errors c")
          case True
          obtain e1' s1' where b1: "inner_add_func c (PyExc e) out s1 = (e1', s1')"
            by (cases "inner_add_func c (PyExc e) out s1")
          obtain e2' t1' where b2: "inner_add_func c (PyExc e) out t1 = (e2', t1')"
            by (cases "inner_add_func c (PyExc e) out t1")
          from agree_inner_add_func [OF ag, of c "PyExc e" out] b1 b2
          have eq': "e1' = e2'" and ag': "agree s1' t1'" by simp_all
          show ?thesis
            using Cons.IH [OF ag'] ag'
            by (cases e2') (simp_all add: Inr a1 a2 eq Some False True b1 b2 eq')
        next
          case incl: False
          with Cons.IH [OF ag] show ?thesis by (simp add: Inr a1 a2 eq Some False)
        qed
      qed
    qed
  qed
qed

lemma inner_add_func_flag [simp]:
  "inner_add_func (c\<lparr>show_progress_bar := b\<rparr>) = inner_add_func c"
  by (simp add: inner_add_func_def fun_eq_iff)

lemma add_each_flag [simp]:
  "add_each (c\<lparr>show_progress_bar := b\<rparr>) xs out s = add_each c xs out s"
  by (induction xs arbitrary: s) (simp_all split: prod.splits option.splits)

lemma serial_loop_flag [simp]:
  "serial_loop f (c\<lparr>show_progress_bar := b\<rparr>) xs out s = serial_loop f c xs out s"
  by (induction xs arbitrary: s) (simp_all split: prod.splits option.splits sum.splits)

lemma harvest_flag [simp]:
  "harvest (c\<lparr>show_progress_bar := b\<rparr>) rs out s = harvest c rs out s"
  by (induction rs arbitrary: s) (auto split: prod.splits option.splits sum.splits)

lemma warm_up_flag [simp]:
  "warm_up its f (c\<lparr>show_progress_bar := b\<rparr>) s = warm_up its f c s"
  by (simp add: warm_up_def split: iterables.splits prod.splits sum.splits)

lemma make_output_flag [simp]:
  "make_output (c\<lparr>show_progress_bar := b\<rparr>) s = make_output c s"
  by (simp add: make_output_def)

lemma pool_phase_flag:
  "fst (pool_phase f (c\<lparr>show_progress_bar := b\<rparr>) rest picks s) = fst (pool_phase f c rest picks s) \<and>
   agree (snd (pool_phase f (c\<lparr>show_progress_bar := b\<rparr>) rest picks s)) (snd (pool_phase f c rest picks s))"
  by (simp add: pool_phase_def Let_def agree_def split: prod.splits option.splits)

lemma parallel_map_flag:
  "fst (parallel_map its f (c\<lparr>show_progress_bar := b\<rparr>) picks s) = fst (parallel_map its f c picks s) \<and>
   agree (snd (parallel_map its f (c\<lparr>show_progress_bar := b\<rparr>) picks s))
         (snd (parallel_map its f c picks s))"
proof (cases "warm_up its f c s")
  case (Pair r s1)
  show ?thesis
  proof (cases r)
    case (Inl e)
    with Pair show ?thesis by (simp add: parallel_map_def)
  next
    case (Inr fr)
    obtain front rest where fr: "fr = (front, rest)" by (cases fr)
    obtain out s2 where mk: "make_output c s1 = (out, s2)" by (cases "make_output c s1")
    obtain e3 s3 where ad: "add_each c front out s2 = (e3, s3)" by (cases "add_each c front out s2")
    show ?thesis
    proof (cases e3)
      case (Some e)
      then show ?thesis by (simp add: parallel_map_def Pair Inr fr mk ad)
    next
      case None
      show ?thesis
      proof (cases "n_jobs c = 1")
        case True
        then show ?thesis
          by (simp add: parallel_map_def Pair Inr fr mk ad None split: prod.splits option.splits)
      next
        case False
        let ?c = "c\<lparr>show_progress_bar := b\<rparr>"
        obtain r4 s4 where p: "pool_phase f c rest picks s3 = (r4, s4)"
          by (cases "pool_phase f c rest picks s3")
        obtain r4' s4' where p': "pool_phase f ?c rest picks s3 = (r4', s4')"
          by (cases "pool_phase f ?c rest picks s3")
        from pool_phase_flag [of f b c rest picks s3] p p'
        have eq: "r4' = r4" and ag: "agree s4' s4" by simp_all
        show ?thesis
        proof (cases r4)
          case (Inl e)
          then show ?thesis
            using False ag by (simp add: parallel_map_def Pair Inr fr mk ad None p p' eq)
        next
          case futures: (Inr rs)
          show ?thesis
          proof (cases "return_output c")
            case ret: False
            then show ?thesis
              using False ag by (simp add: parallel_map_def Pair Inr fr mk ad None p p' eq futures)
          next
            case ret: True
            obtain e5 s5 where h: "harvest c rs out s4 = (e5, s5)" by (cases "harvest c rs out s4")
            obtain e5' s5' where h': "harvest c rs out s4' = (e5', s5')" by (cases "harvest c rs out s4'")
            from agree_harvest [OF ag, of c rs out] h h'
            have eq5: "e5' = e5" and ag5: "agree s5' s5" by simp_all
            show ?thesis
              using False ag5
              by (cases e5) (simp_all add: parallel_map_def Pair Inr fr mk ad None p p' eq futures ret h h' eq5)
          qed
        qed
      qed
    qed
  qed
qed

lemmas eval_defs = parallel_map_def warm_up_def slice_to_def slice_from_def
      make_output_def call_def bind_args_def inner_add_func_def start_def deref_def assign_def
      pool_phase_def defaults_def Let_def

lemma values_of_simps [simp]:
  "values_of [] = []"
  "values_of (Inl e # rs) = values_of rs"
  "values_of (Inr v # rs) = v # values_of rs"
  by (simp_all add: values_of_def)

lemma length_values_of: "length (values_of rs) = length rs - length (filter isl rs)"
proof (induction rs)
  case Nil
  then show ?case by simp
next
  case (Cons r rs)
  have le: "length (filter isl rs) \<le> length rs" by (rule length_filter_le)
  show ?case using Cons.IH le by (cases r) (simp_all add: Suc_diff_le)
qed

lemma warm_up_none:
  "front_num c = 0 \<Longrightarrow> warm_up its f c s = (Inr ([], elements its), s)"
  by (cases its) (simp_all add: warm_up_def slice_to_def slice_from_def elements_def)

lemma pooled_collection:
  assumes pol: "\<not> raise_errors c"
    and mode: "\<not> extend_result c" "add_func c = None"
    and front: "front_num c = 0"
    and ret: "return_output c"
    and init: "initial_value c = None"
    and jobs: "1 < n_jobs c"
    and fit: "\<forall>a \<in> set (elements its). fits (use_kwargs c) a"
  shows "fst (parallel_map its f c picks s) = Inr (Some Created) \<and>
    created (snd (parallel_map its f c picks s)) = kept c (map (outcome f (use_kwargs c)) (elements its))"
proof -
  let ?kw = "use_kwargs c" and ?xs = "elements its"
  let ?s2 = "s\<lparr>created := []\<rparr>"
  from jobs have pos: "0 < n_jobs c" and ne: "n_jobs c \<noteq> 1" by simp_all
  define s4 where "s4 = snd (pool_phase f c ?xs picks ?s2)"
  have p: "pool_phase f c ?xs picks ?s2 = (Inr (map (outcome f ?kw) ?xs), s4)"
    using pool_phase_fst [OF pos fit, of f picks ?s2] by (simp add: s4_def prod_eq_iff)
  have "deref s4 Created = deref ?s2 Created" by (simp add: s4_def)
  then have d4: "deref s4 Created = []" by (simp add: deref_def)
  have h: "harvest c (map (outcome f ?kw) ?xs) Created s4 =
      (None, (assign Created (kept c (map (outcome f ?kw) ?xs)) s4)
         \<lparr>shown := shown s4 @ replicate (length ?xs) Harvested\<rparr>)"
    using harvest_no_raise [OF mode(2,1) pol, of "map (outcome f ?kw) ?xs" Created s4]
    by (simp add: ret d4)
  show ?thesis
    by (simp add: parallel_map_def warm_up_none [OF front] make_output_None [OF init]
        ne ret p h assign_def)
qed

lemma call_each_frame: "snd (call_each f kw xs s) = s\<lparr>calls := calls (snd (call_each f kw xs s))\<rparr>"
proof (induction xs arbitrary: s)
  case Nil
  then show ?case by simp
next
  case (Cons a as)
  let ?s = "s\<lparr>calls := calls s @ bound kw [a]\<rparr>"
  show ?case
  proof (cases "outcome f kw a")
    case (Inl e)
    then show ?thesis by (simp add: call_eq del: bound.simps)
  next
    case (Inr v)
    obtain r s' where r: "call_each f kw as ?s = (r, s')" by (cases "call_each f kw as ?s")
    with Cons.IH [of ?s] have "s' = s\<lparr>calls := calls s'\<rparr>" by simp
    with r Inr show ?thesis by (cases r) (simp_all add: call_eq del: bound.simps)
  qed
qed

lemma take_front_frame:
  "snd (take_front f kw n xs s) = s\<lparr>calls := calls (snd (take_front f kw n xs s))\<rparr>"
proof (induction n arbitrary: xs s)
  case 0
  then show ?case by simp
next
  case (Suc n)
  show ?case
  proof (cases xs)
    case Nil
    then show ?thesis by simp
  next
    case (Cons a as)
    let ?s = "s\<lparr>calls := calls s @ bound kw [a]\<rparr>"
    show ?thesis
    proof (cases "outcome f kw a")
      case (Inl e)
      then show ?thesis by (simp add: Cons call_eq del: bound.simps)
    next
      case (Inr v)
      obtain r s' where r: "take_front f kw n as ?s = (r, s')" by (cases "take_front f kw n as ?s")
      with Suc.IH [of as ?s] have "s' = s\<lparr>calls := calls s'\<rparr>" by simp
      with r Inr show ?thesis
        by (cases r) (simp_all add: Cons call_eq split: prod.splits del: bound.simps)
    qed
  qed
qed

lemma warm_up_frame: "snd (warm_up its f c s) = s\<lparr>calls := calls (snd (warm_up its f c s))\<rparr>"
proof (cases its)
  case (ListArg xs)
  let ?r = "call_each f (use_kwargs c) (slice_to xs (front_num c)) s"
  have "snd (warm_up its f c s) = snd ?r"
    by (simp add: warm_up_def ListArg split: prod.splits sum.splits)
  then show ?thesis using call_each_frame [of f "use_kwargs c" "slice_to xs (front_num c)" s] by simp
next
  case (IterArg xs)
  then show ?thesis
    using take_front_frame [of f "use_kwargs c" "nat (front_num c)" xs s] by (simp add: warm_up_def)
qed

lemma warm_up_heap [simp]: "heap (snd (warm_up its f c s)) = heap s"
  by (subst warm_up_frame) simp

lemma warm_up_created [simp]: "created (snd (warm_up its f c s)) = created s"
  by (subst warm_up_frame) simp

lemma serial_loop_raises:
  "\<exists>a \<in> set xs. isl (outcome f (use_kwargs c) a) \<Longrightarrow> fst (serial_loop f c xs out s) \<noteq> None"
proof (induction xs arbitrary: s)
  case Nil
  then show ?case by simp
next
  case (Cons a as)
  let ?s = "s\<lparr>shown := shown s @ [SerialItem]\<rparr>"
  show ?case
  proof (cases "outcome f (use_kwargs c) a")
    case (Inl e)
    then show ?thesis by (simp add: call_eq del: bound.simps)
  next
    case (Inr v)
    with Cons.prems have rest: "\<exists>a \<in> set as. isl (outcome f (use_kwargs c) a)" by auto
    obtain e' s' where ad: "inner_add_func c v out (?s\<lparr>calls := calls ?s @ bound (use_kwargs c) [a]\<rparr>) = (e', s')"
      by (cases "inner_add_func c v out (?s\<lparr>calls := calls ?s @ bound (use_kwargs c) [a]\<rparr>)")
    show ?thesis
      using Cons.IH [OF rest, of s'] ad Inr
      by (cases e') (simp_all add: call_eq del: bound.simps)
  qed
qed

lemma harvest_raises:
  "raise_errors c \<Longrightarrow> \<exists>r \<in> set rs. isl r \<Longrightarrow> fst (harvest c rs out s) \<noteq> None"
proof (induction rs arbitrary: s)
  case Nil
  then show ?case by simp
next
  case (Cons r rs)
  let ?s = "s\<lparr>shown := shown s @ [Harvested]\<rparr>"
  show ?case
  proof (cases r)
    case (Inl e)
    with Cons.prems(1) show ?thesis by simp
  next
    case (Inr v)
    with Cons.prems have rest: "\<exists>r \<in> set rs. isl r" by auto
    obtain e' s' where ad: "inner_add_func c v out ?s = (e', s')"
      by (cases "inner_add_func c v out ?s")
    show ?thesis
      using Cons.IH [OF Cons.prems(1) rest, of s'] ad Inr Cons.prems(1)
      by (cases e') simp_all
  qed
qed

lemma pool_phase_futures:
  "pool_phase f c rest picks s = (Inr rs, s') \<Longrightarrow> rs = map (outcome f (use_kwargs c)) rest"
proof -
  assume p: "pool_phase f c rest picks s = (Inr rs, s')"
  then have pos: "0 < n_jobs c" by (auto simp: pool_phase_def split: if_splits)
  from pool_phase_result [OF pos, of f rest picks s] p show ?thesis
    by (simp split: if_splits)
qed

lemma raise_policy_raises:
  assumes pol: "raise_errors c"
    and path: "return_output c \<or> n_jobs c = 1"
    and warm: "fst (warm_up its f c s) = Inr (front, rest)"
    and fails: "\<exists>a \<in> set rest. isl (outcome f (use_kwargs c) a)"
  shows "isl (fst (parallel_map its f c picks s))"
proof -
  obtain s1 where w: "warm_up its f c s = (Inr (front, rest), s1)"
    using warm by (cases "warm_up its f c s") simp
  obtain out s2 where mk: "make_output c s1 = (out, s2)" by (cases "make_output c s1")
  obtain e3 s3 where ad: "add_each c front out s2 = (e3, s3)" by (cases "add_each c front out s2")
  show ?thesis
  proof (cases e3)
    case (Some e)
    then show ?thesis by (simp add: parallel_map_def w mk ad)
  next
    case None
    show ?thesis
    proof (cases "n_jobs c = 1")
      case True
      obtain e4 s4 where sl: "serial_loop f c rest out s3 = (e4, s4)"
        by (cases "serial_loop f c rest out s3")
      with serial_loop_raises [OF fails, of out s3] obtain e where "e4 = Some e" by auto
      then show ?thesis by (simp add: parallel_map_def w mk ad None True sl)
    next
      case False
      with path have ret: "return_output c" by simp
      obtain r4 s4 where p: "pool_phase f c rest picks s3 = (r4, s4)"
        by (cases "pool_phase f c rest picks s3")
      show ?thesis
      proof (cases r4)
        case (Inl e)
        then show ?thesis by (simp add: parallel_map_def w mk ad None False p)
      next
        case (Inr rs)
        with p have "rs = map (outcome f (use_kwargs c)) rest" by (simp add: pool_phase_futures)
        with fails have bad: "\<exists>r \<in> set rs. isl r" by simp
        obtain e5 s5 where h: "harvest c rs out s4 = (e5, s5)" by (cases "harvest c rs out s4")
        with harvest_raises [OF pol bad, of out s4] obtain e where "e5 = Some e" by auto
        then show ?thesis by (simp add: parallel_map_def w mk ad None False p Inr ret h)
      qed
    qed
  qed
qed

lemma heap_assign_Created [simp]: "heap (assign Created ys s) = heap s"
  by (simp add: assign_def)

lemma created_assign_Created [simp]: "created (assign Created ys s) = ys"
  by (simp add: assign_def)

lemma raise_policy_first_error:
  assumes pol: "raise_errors c"
    and path: "return_output c \<or> n_jobs c = 1"
    and mode: "add_func c = None" "\<not> extend_result c"
    and jobs: "1 \<le> n_jobs c"
    and warm: "fst (warm_up its f c s) = Inr (front, rest)"
    and fit: "\<forall>b \<in> set rest. fits (use_kwargs c) b"
    and split: "rest = pre @ a # post"
    and pre: "\<forall>b \<in> set pre. \<not> isl (outcome f (use_kwargs c) b)"
    and a: "outcome f (use_kwargs c) a = Inl e"
  shows "fst (parallel_map its f c picks s) = Inl e \<and>
    (initial_value c = None \<longrightarrow>
       heap (snd (parallel_map its f c picks s)) = heap s \<and>
       created (snd (parallel_map its f c picks s)) =
         (if return_output c then front @ map (\<lambda>b. entry (outcome f (use_kwargs c) b)) pre else []))"
proof -
  let ?kw = "use_kwargs c"
  let ?val = "\<lambda>b. entry (outcome f ?kw b)"
  obtain s1 where w: "warm_up its f c s = (Inr (front, rest), s1)"
    using warm by (cases "warm_up its f c s") simp
  have h1: "heap s1 = heap s" using warm_up_heap [of its f c s] w by simp
  obtain out s2 where mk: "make_output c s1 = (out, s2)" by (cases "make_output c s1")
  have mk_none: "initial_value c = None \<Longrightarrow> out = Created \<and> s2 = s1\<lparr>created := []\<rparr>"
    using mk by (simp add: make_output_None)
  define s3 where "s3 = (if return_output c then assign out (deref s2 out @ front) s2 else s2)"
  have ad: "add_each c front out s2 = (None, s3)"
    by (simp add: add_each_append mode s3_def)
  have s3_none: "initial_value c = None \<Longrightarrow>
      heap s3 = heap s \<and> created s3 = (if return_output c then front else [])"
    using mk_none h1 by (simp add: s3_def deref_def)
  show ?thesis
  proof (cases "n_jobs c = 1")
    case True
    define s4 where "s4 =
      (if return_output c then assign out (deref s3 out @ map ?val pre) s3 else s3)
        \<lparr>calls := calls s3 @ bound ?kw pre, shown := shown s3 @ replicate (length pre) SerialItem\<rparr>"
    define s5 where "s5 = s4\<lparr>shown := shown s4 @ [SerialItem],
      calls := calls (s4\<lparr>shown := shown s4 @ [SerialItem]\<rparr>) @ bound ?kw [a]\<rparr>"
    have "serial_loop f c (pre @ a # post) out s3 = serial_loop f c (a # post) out s4"
      unfolding s4_def by (rule serial_loop_prefix [OF mode pre])
    also have "\<dots> = (Some e, s5)"
      by (simp add: call_eq a s5_def del: bound.simps)
    finally have sl: "serial_loop f c rest out s3 = (Some e, s5)" by (simp only: split)
    have res: "parallel_map its f c picks s = (Inl e, s5)"
      by (simp add: parallel_map_def w mk ad True sl)
    have "initial_value c = None \<Longrightarrow>
        heap s5 = heap s \<and> created s5 = (if return_output c then front @ map ?val pre else [])"
      using s3_none mk_none by (auto simp: s5_def s4_def deref_def)
    with res show ?thesis by simp
  next
    case False
    with path jobs have ret: "return_output c" and pos: "0 < n_jobs c" by auto
    define s4 where "s4 = snd (pool_phase f c rest picks s3)"
    have p: "pool_phase f c rest picks s3 = (Inr (map (outcome f ?kw) rest), s4)"
      using pool_phase_fst [OF pos fit, of f picks s3] by (simp add: s4_def prod_eq_iff)
    have h4: "heap s4 = heap s3" "created s4 = created s3"
      by (simp_all add: s4_def pool_phase_frame)
    define s5 where "s5 = (assign out (deref s4 out @ map entry (map (outcome f ?kw) pre)) s4)
        \<lparr>shown := shown s4 @ replicate (length (map (outcome f ?kw) pre)) Harvested\<rparr>"
    have okm: "\<forall>r \<in> set (map (outcome f ?kw) pre). \<not> isl r" using pre by simp
    have "harvest c (map (outcome f ?kw) pre @ Inl e # map (outcome f ?kw) post) out s4
        = harvest c (Inl e # map (outcome f ?kw) post) out s5"
      unfolding s5_def using harvest_prefix [OF mode okm, of "Inl e # map (outcome f ?kw) post" out s4]
      by (simp only: ret if_True)
    also have "\<dots> = (Some e, s5\<lparr>shown := shown s5 @ [Harvested]\<rparr>)"
      by (simp add: pol)
    finally have hv: "harvest c (map (outcome f ?kw) rest) out s4
        = (Some e, s5\<lparr>shown := shown s5 @ [Harvested]\<rparr>)"
      by (simp add: split a)
    have res: "parallel_map its f c picks s = (Inl e, s5\<lparr>shown := shown s5 @ [Harvested]\<rparr>)"
      by (simp add: parallel_map_def w mk ad False p ret hv)
    have "initial_value c = None \<Longrightarrow>
        heap s5 = heap s \<and> created s5 = front @ map ?val pre"
      using s3_none mk_none h4 ret by (auto simp: s5_def deref_def comp_def)
    with res ret show ?thesis by simp
  qed
qed

lemma call_each_returns:
  "fst (call_each f kw xs s) = Inr vs \<Longrightarrow> \<forall>a \<in> set xs. \<not> isl (outcome f kw a)"
proof (induction xs arbitrary: s vs)
  case Nil
  then show ?case by simp
next
  case (Cons a as)
  let ?s = "s\<lparr>calls := calls s @ bound kw [a]\<rparr>"
  show ?case
  proof (cases "outcome f kw a")
    case (Inl e)
    with Cons.prems show ?thesis by (simp add: call_eq del: bound.simps)
  next
    case (Inr v)
    obtain r s' where r: "call_each f kw as ?s = (r, s')" by (cases "call_each f kw as ?s")
    with Cons.prems Inr obtain ws where "r = Inr ws"
      by (cases r) (simp_all add: call_eq del: bound.simps)
    with r Cons.IH [of ?s ws] have "\<forall>a \<in> set as. \<not> isl (outcome f kw a)" by simp
    with Inr show ?thesis by simp
  qed
qed

lemma take_front_returns:
  "fst (take_front f kw n xs s) = Inr vr \<Longrightarrow>
   n \<le> length xs \<and> (\<forall>a \<in> set (take n xs). \<not> isl (outcome f kw a))"
proof (induction n arbitrary: xs s vr)
  case 0
  then show ?case by simp
next
  case (Suc n)
  show ?case
  proof (cases xs)
    case Nil
    with Suc.prems show ?thesis by simp
  next
    case (Cons a as)
    let ?s = "s\<lparr>calls := calls s @ bound kw [a]\<rparr>"
    show ?thesis
    proof (cases "outcome f kw a")
      case (Inl e)
      with Suc.prems Cons show ?thesis by (simp add: call_eq del: bound.simps)
    next
      case (Inr v)
      obtain r s' where r: "take_front f kw n as ?s = (r, s')" by (cases "take_front f kw n as ?s")
      with Suc.prems Inr Cons obtain wr where "r = Inr wr"
        by (cases r) (simp_all add: call_eq del: bound.simps)
      with r Suc.IH [of as ?s wr]
      have "n \<le> length as \<and> (\<forall>a \<in> set (take n as). \<not> isl (outcome f kw a))" by simp
      with Inr Cons show ?thesis by simp
    qed
  qed
qed

lemma warm_up_returns:
  assumes "fst (warm_up its f c s) = Inr (front, rest)"
  shows "warm_up its f c s =
     (Inr (map (\<lambda>a. entry (outcome f (use_kwargs c) a)) (front_part its c), rest_part its c),
      s\<lparr>calls := calls s @ bound (use_kwargs c) (front_part its c)\<rparr>) \<and>
    (\<forall>a \<in> set (front_part its c). \<not> isl (outcome f (use_kwargs c) a))"
proof (cases its)
  case (ListArg xs)
  from assms ListArg obtain vs where "fst (call_each f (use_kwargs c) (slice_to xs (front_num c)) s) = Inr vs"
    by (auto simp: warm_up_def split: prod.splits sum.splits)
  then have ok: "\<forall>a \<in> set (slice_to xs (front_num c)). \<not> isl (outcome f (use_kwargs c) a)"
    by (rule call_each_returns)
  with ListArg show ?thesis
    by (simp add: warm_up_def front_part_def rest_part_def call_each_ok)
next
  case (IterArg xs)
  from assms IterArg
  have "fst (take_front f (use_kwargs c) (nat (front_num c)) xs s) = Inr (front, rest)"
    by (simp add: warm_up_def)
  then have ok: "nat (front_num c) \<le> length xs \<and>
      (\<forall>a \<in> set (take (nat (front_num c)) xs). \<not> isl (outcome f (use_kwargs c) a))"
    by (rule take_front_returns)
  with IterArg show ?thesis
    by (simp add: warm_up_def front_part_def rest_part_def take_front_ok)
qed

lemma serial_loop_returns:
  "fst (serial_loop f c xs out s) = None \<Longrightarrow>
   (\<forall>a \<in> set xs. \<not> isl (outcome f (use_kwargs c) a)) \<and>
   calls (snd (serial_loop f c xs out s)) = calls s @ bound (use_kwargs c) xs"
proof (induction xs arbitrary: s)
  case Nil
  then show ?case by simp
next
  case (Cons a as)
  let ?kw = "use_kwargs c"
  let ?s = "s\<lparr>shown := shown s @ [SerialItem], calls := calls s @ bound ?kw [a]\<rparr>"
  show ?case
  proof (cases "outcome f ?kw a")
    case (Inl e)
    with Cons.prems show ?thesis by (simp add: call_eq del: bound.simps)
  next
    case (Inr v)
    obtain e' s' where ad: "inner_add_func c v out ?s = (e', s')"
      by (cases "inner_add_func c v out ?s")
    have cs: "calls s' = calls s @ bound ?kw [a]"
      using inner_add_func_calls [of c v out ?s] ad by (simp del: bound.simps)
    from Cons.prems Inr ad have none: "e' = None"
      by (cases e') (simp_all add: call_eq del: bound.simps)
    have step: "serial_loop f c (a # as) out s = serial_loop f c as out s'"
      by (simp add: call_eq Inr ad none del: bound.simps)
    with Cons.prems have "fst (serial_loop f c as out s') = None" by simp
    from Cons.IH [OF this] Inr cs show ?thesis
      unfolding step by (simp add: bound_Cons [of ?kw a as] del: bound.simps)
  qed
qed

lemma harvest_calls [simp]: "calls (snd (harvest c rs out s)) = calls s"
proof (induction rs arbitrary: s)
  case Nil
  then show ?case by simp
next
  case (Cons r rs)
  let ?s = "s\<lparr>shown := shown s @ [Harvested]\<rparr>"
  have inner: "calls (snd (inner_add_func c x out t)) = calls t" for x t by simp
  show ?case
  proof (cases r)
    case (Inl e)
    obtain e' s' where ad: "inner_add_func c (PyExc e) out ?s = (e', s')"
      by (cases "inner_add_func c (PyExc e) out ?s")
    have "calls s' = calls s" using inner [of "PyExc e" ?s] ad by simp
    with Inl ad Cons.IH [of s'] Cons.IH [of ?s] show ?thesis by (cases e') simp_all
  next
    case (Inr v)
    obtain e1 s1 where a1: "inner_add_func c v out ?s = (e1, s1)"
      by (cases "inner_add_func c v out ?s")
    have c1: "calls s1 = calls s" using inner [of v ?s] a1 by simp
    show ?thesis
    proof (cases e1)
      case None
      with Inr a1 c1 Cons.IH [of s1] show ?thesis by simp
    next
      case (Some e)
      obtain e2 s2 where a2: "inner_add_func c (PyExc e) out s1 = (e2, s2)"
        by (cases "inner_add_func c (PyExc e) out s1")
      have "calls s2 = calls s" using inner [of "PyExc e" s1] a2 c1 by simp
      with Inr a1 c1 Some a2 Cons.IH [of s2] Cons.IH [of s1] show ?thesis by (cases e2) simp_all
    qed
  qed
qed

lemma pool_phase_returns:
  assumes "pool_phase f c rest picks s = (Inr rs, s')"
  shows "(\<forall>a \<in> set rest. fits (use_kwargs c) a) \<and>
    mset (calls s') = mset (calls s) + mset (bound (use_kwargs c) rest)"
proof -
  from assms have pos: "0 < n_jobs c" by (auto simp: pool_phase_def split: if_splits)
  from pool_phase_result [OF pos, of f rest picks s] assms
  have fit: "\<forall>a \<in> set rest. fits (use_kwargs c) a" by (simp split: if_splits)
  then have "takeWhile (fits (use_kwargs c)) rest = rest" by (simp add: takeWhile_eq_all_conv)
  with pool_phase_calls [OF pos, of f rest picks s] assms fit show ?thesis by simp
qed

lemma make_output_ref: "heap s' = heap s \<Longrightarrow> fst (make_output c s') = fst (make_output c s)"
  by (simp add: make_output_def split: option.splits)

section \<open>The properties\<close>

subsection \<open>Output order\<close>

text \<open>
  C1. With at least one worker, a warm-up count of at most the number of inputs, Append
  mode, no custom accumulator, no initial value and the output returned, a work function
  that fails on no input makes \<^verbatim>\<open>parallel_map\<close> return a new list that holds, entry
  by entry and in input order, the value of the work function on each input. The list
  does not depend on the number of workers (one or several) nor on the order \<open>picks\<close> in
  which the tasks complete.
\<close>

theorem outputs_in_input_order:
  assumes jobs: "1 \<le> n_jobs c"
    and front: "front_num c \<le> int (length (elements its))"
    and mode: "\<not> extend_result c" "add_func c = None"
    and init: "initial_value c = None"
    and ret: "return_output c"
    and ok: "\<forall>a \<in> set (elements its). \<not> isl (outcome f (use_kwargs c) a)"
  shows "fst (parallel_map its f c picks s) = Inr (Some Created) \<and>
    map Inr (created (snd (parallel_map its f c picks s)))
      = map (outcome f (use_kwargs c)) (elements its)"
proof -
  let ?kw = "use_kwargs c"
  let ?val = "\<lambda>a. entry (outcome f ?kw a)"
  let ?fr = "front_part its c" and ?re = "rest_part its c"
  have split: "?fr @ ?re = elements its" by (rule front_rest)
  from ok split have okf: "\<forall>a \<in> set ?fr. \<not> isl (outcome f ?kw a)"
    and okr: "\<forall>a \<in> set ?re. \<not> isl (outcome f ?kw a)"
    by (metis Un_iff set_append)+
  define s1 where "s1 = s\<lparr>calls := calls s @ bound ?kw ?fr\<rparr>"
  define s3 where "s3 = assign Created (map ?val ?fr) (s1\<lparr>created := []\<rparr>)"
  have w: "warm_up its f c s = (Inr (map ?val ?fr, ?re), s1)"
    unfolding s1_def by (rule warm_up_ok [OF okf front])
  have a: "add_each c (map ?val ?fr) Created (s1\<lparr>created := []\<rparr>) = (None, s3)"
    by (simp add: add_each_append mode ret s3_def deref_def)
  have d3: "deref s3 Created = map ?val ?fr" by (simp add: s3_def)
  have all: "map Inr (map ?val ?fr @ map ?val ?re) = map (outcome f ?kw) (elements its)"
  proof -
    have "map Inr (map entry (map (outcome f ?kw) (elements its))) = map (outcome f ?kw) (elements its)"
      by (rule map_Inr_entry) (use ok in simp)
    then show ?thesis by (simp add: split [symmetric] comp_def)
  qed
  show ?thesis
  proof (cases "n_jobs c = 1")
    case True
    have "serial_loop f c (?re @ []) Created s3 =
        (None, (assign Created (deref s3 Created @ map ?val ?re) s3)
          \<lparr>calls := calls s3 @ bound ?kw ?re,
           shown := shown s3 @ replicate (length ?re) SerialItem\<rparr>)"
      by (simp only: serial_loop_prefix [OF mode(2,1) okr] serial_loop.simps ret if_True)
    then have "serial_loop f c ?re Created s3 =
        (None, (assign Created (map ?val ?fr @ map ?val ?re) s3)
          \<lparr>calls := calls s3 @ bound ?kw ?re,
           shown := shown s3 @ replicate (length ?re) SerialItem\<rparr>)"
      by (simp add: d3)
    then show ?thesis
      using all by (simp add: parallel_map_def w make_output_None init a True ret assign_def)
  next
    case False
    with jobs have pos: "0 < n_jobs c" by simp
    from okr have fit: "\<forall>a \<in> set ?re. fits ?kw a" by (blast intro: succeeds_fits)
    define s4 where "s4 = snd (pool_phase f c ?re picks s3)"
    have p: "pool_phase f c ?re picks s3 = (Inr (map (outcome f ?kw) ?re), s4)"
      using pool_phase_fst [OF pos fit, of f picks s3] by (simp add: s4_def prod_eq_iff)
    have d4: "deref s4 Created = map ?val ?fr" by (simp add: s4_def d3)
    have okm: "\<forall>r \<in> set (map (outcome f ?kw) ?re). \<not> isl r" using okr by simp
    have "harvest c (map (outcome f ?kw) ?re @ []) Created s4 =
        (None, (assign Created (deref s4 Created @ map entry (map (outcome f ?kw) ?re)) s4)
          \<lparr>shown := shown s4 @ replicate (length (map (outcome f ?kw) ?re)) Harvested\<rparr>)"
      by (simp only: harvest_prefix [OF mode(2,1) okm] harvest.simps ret if_True)
    then have "harvest c (map (outcome f ?kw) ?re) Created s4 =
        (None, (assign Created (map ?val ?fr @ map ?val ?re) s4)
          \<lparr>shown := shown s4 @ replicate (length ?re) Harvested\<rparr>)"
      by (simp add: d4 comp_def)
    then show ?thesis
      using all by (simp add: parallel_map_def w make_output_None init a False ret p assign_def)
  qed
qed

text \<open>
  The inputs \<^verbatim>\<open>[1, 2, 3, 4, 5]\<close> under \<^verbatim>\<open>lambda x: x * x\<close>, two workers, one
  warm-up input: the output is \<^verbatim>\<open>[1, 4, 9, 16, 25]\<close>.
\<close>

theorem outputs_in_input_order_witness:
  "fst (parallel_map (ListArg [PyInt 1, PyInt 2, PyInt 3, PyInt 4, PyInt 5]) square squares_config [1, 0, 1] start)
     = Inr (Some Created) \<and>
   map Inr (created (snd (parallel_map (ListArg [PyInt 1, PyInt 2, PyInt 3, PyInt 4, PyInt 5])
      square squares_config [1, 0, 1] start)))
     = [Inr (PyInt 1), Inr (PyInt 4), Inr (PyInt 9), Inr (PyInt 16), Inr (PyInt 25) :: exn + pyval]"
proof -
  let ?its = "ListArg [PyInt 1, PyInt 2, PyInt 3, PyInt 4, PyInt 5]"
  have jobs: "1 \<le> n_jobs squares_config"
    and front: "front_num squares_config \<le> int (length (elements ?its))"
    and mode: "\<not> extend_result squares_config" "add_func squares_config = None"
    and init: "initial_value squares_config = None"
    and ret: "return_output squares_config"
    by (simp_all add: squares_config_def defaults_def elements_def)
  have ok: "\<forall>a \<in> set (elements ?its). \<not> isl (outcome square (use_kwargs squares_config) a)"
    by (simp add: squares_config_def defaults_def elements_def outcome_def bind_args_def)
  have rhs: "map (outcome square (use_kwargs squares_config)) (elements ?its)
      = [Inr (PyInt 1), Inr (PyInt 4), Inr (PyInt 9), Inr (PyInt 16), Inr (PyInt 25)]"
    by (simp add: squares_config_def defaults_def elements_def outcome_def bind_args_def)
  show ?thesis
    using outputs_in_input_order [OF jobs front mode init ret ok, of "[1, 0, 1]" start]
    by (simp only: rhs)
qed

subsection \<open>The serial path and the error policy\<close>

text \<open>
  C2. The claim: with one worker a failure after the warm-up is handled by the error
  policy, so that \<^verbatim>\<open>[2, 0, 4]\<close> under \<^verbatim>\<open>lambda x: 10 // x\<close> with the
  policy CollectAsEntry gives \<^verbatim>\<open>[5, <error>, 2]\<close>. The serial loop of lines 73 to 75
  has no handler: on this input the call raises ZeroDivisionError.
\<close>

theorem serial_path_ignores_policy:
  "on_error collect_config = CollectAsEntry \<and>
   fst (parallel_map (ListArg [PyInt 2, PyInt 0, PyInt 4]) ten_div collect_config [] start)
     = Inl ZeroDivisionError"
  by (simp add: on_error_def collect_config_def defaults_def parallel_map_def warm_up_def slice_to_def slice_from_def
      make_output_def call_def bind_args_def inner_add_func_def start_def deref_def assign_def)

subsection \<open>The policy Raise\<close>

text \<open>
  C3 as stated fails. With \<^verbatim>\<open>return_output = False\<close> and several workers the guard
  of lines 91 and 92 returns before any result is read, so a failing task raises
  nothing. And when the caller passes a non-empty \<^verbatim>\<open>initial_value\<close>, the results
  accumulated before the failure stay visible in that list after the call has raised.
\<close>

theorem raise_policy_not_applied:
  "on_error silent_config = Raise \<and>
   fst (parallel_map (ListArg [PyInt 0]) ten_div silent_config [] start) = Inr None \<and>
   on_error seeded_config = Raise \<and>
   fst (parallel_map (ListArg [PyInt 2, PyInt 0, PyInt 4]) ten_div seeded_config [] seeded)
     = Inl ZeroDivisionError \<and>
   heap (snd (parallel_map (ListArg [PyInt 2, PyInt 0, PyInt 4]) ten_div seeded_config [] seeded)) 0
     = [PyInt 7, PyInt 5]"
  by (simp add: silent_config_def seeded_config_def seeded_def on_error_def eval_defs)

text \<open>
  C3, as amended. Under the policy Raise, when the output is returned or there is one
  worker, the warm-up has raised nothing and the work function fails on a remaining
  input, the call raises and returns no list. In Append mode with no custom
  accumulator, at least one worker and remaining inputs that fit the calling
  convention, the error raised is the one of the first failing input in submission
  order; and with no initial value, the caller's lists are unchanged and the list the
  call built, which is not returned, holds the warm-up results and the results before
  the first failure only: no later result has been accumulated.
\<close>

theorem first_failure_raised:
  assumes pol: "on_error c = Raise"
    and path: "return_output c \<or> n_jobs c = 1"
    and warm: "fst (warm_up its f c s) = Inr (front, rest)"
    and split: "rest = pre @ a # post"
    and pre: "\<forall>b \<in> set pre. \<not> isl (outcome f (use_kwargs c) b)"
    and a: "outcome f (use_kwargs c) a = Inl e"
  shows "isl (fst (parallel_map its f c picks s)) \<and>
    (add_func c = None \<and> \<not> extend_result c \<and> 1 \<le> n_jobs c \<and>
     (\<forall>b \<in> set rest. fits (use_kwargs c) b) \<longrightarrow>
       fst (parallel_map its f c picks s) = Inl e \<and>
       (initial_value c = None \<longrightarrow>
          heap (snd (parallel_map its f c picks s)) = heap s \<and>
          created (snd (parallel_map its f c picks s)) =
            (if return_output c then front @ map (\<lambda>b. entry (outcome f (use_kwargs c) b)) pre
             else [])))"
proof -
  from pol have r: "raise_errors c" by (auto simp: on_error_def split: if_splits)
  from split a have fails: "\<exists>b \<in> set rest. isl (outcome f (use_kwargs c) b)" by auto
  have general: "isl (fst (parallel_map its f c picks s))"
    by (rule raise_policy_raises [OF r path warm fails])
  have specific: "fst (parallel_map its f c picks s) = Inl e \<and>
       (initial_value c = None \<longrightarrow>
          heap (snd (parallel_map its f c picks s)) = heap s \<and>
          created (snd (parallel_map its f c picks s)) =
            (if return_output c then front @ map (\<lambda>b. entry (outcome f (use_kwargs c) b)) pre
             else []))"
    if "add_func c = None" "\<not> extend_result c" "1 \<le> n_jobs c"
      "\<forall>b \<in> set rest. fits (use_kwargs c) b"
    using raise_policy_first_error [OF r path that(1,2,3) warm that(4) split pre a] .
  from general specific show ?thesis by blast
qed

text \<open>
  The inputs \<^verbatim>\<open>[1, 2, 0, 4]\<close> under \<^verbatim>\<open>lambda x: 10 // x\<close>, one warm-up input,
  two workers: ZeroDivisionError, with \<^verbatim>\<open>[10, 5]\<close> accumulated and discarded.
\<close>

theorem first_failure_raised_witness:
  "isl (fst (parallel_map (ListArg [PyInt 1, PyInt 2, PyInt 0, PyInt 4]) ten_div raise_config [1] start)) \<and>
   fst (parallel_map (ListArg [PyInt 1, PyInt 2, PyInt 0, PyInt 4]) ten_div raise_config [1] start)
     = Inl ZeroDivisionError \<and>
   heap (snd (parallel_map (ListArg [PyInt 1, PyInt 2, PyInt 0, PyInt 4]) ten_div raise_config [1] start))
     = heap start \<and>
   created (snd (parallel_map (ListArg [PyInt 1, PyInt 2, PyInt 0, PyInt 4]) ten_div raise_config [1] start))
     = [PyInt 10, PyInt 5]"
proof -
  let ?its = "ListArg [PyInt 1, PyInt 2, PyInt 0, PyInt 4]" and ?c = raise_config
  have pol: "on_error ?c = Raise" by (simp add: on_error_def raise_config_def defaults_def)
  have path: "return_output ?c \<or> n_jobs ?c = 1" by (simp add: raise_config_def defaults_def)
  have kw: "use_kwargs ?c = False" by (simp add: raise_config_def defaults_def)
  have warm: "fst (warm_up ?its ten_div ?c start) = Inr ([PyInt 10], [PyInt 2, PyInt 0, PyInt 4])"
    by (simp add: raise_config_def eval_defs)
  have split: "[PyInt 2, PyInt 0, PyInt 4] = [PyInt 2] @ PyInt 0 # [PyInt 4]" by simp
  have pre: "\<forall>b \<in> set [PyInt 2]. \<not> isl (outcome ten_div (use_kwargs ?c) b)"
    by (simp add: kw outcome_def bind_args_def)
  have a: "outcome ten_div (use_kwargs ?c) (PyInt 0) = Inl ZeroDivisionError"
    by (simp add: kw outcome_def bind_args_def)
  have more: "add_func ?c = None \<and> \<not> extend_result ?c \<and> 1 \<le> n_jobs ?c \<and>
      (\<forall>b \<in> set [PyInt 2, PyInt 0, PyInt 4]. fits (use_kwargs ?c) b)"
    "initial_value ?c = None" "return_output ?c"
    by (simp_all add: raise_config_def defaults_def fits_def bind_args_def)
  have vals: "[PyInt 10] @ map (\<lambda>b. entry (outcome ten_div (use_kwargs ?c) b)) [PyInt 2]
      = [PyInt 10, PyInt 5]"
    by (simp add: kw outcome_def bind_args_def)
  from first_failure_raised [OF pol path warm split pre a, of "[1]"] more vals
  show ?thesis by simp
qed

subsection \<open>The policy CollectAsEntry\<close>

text \<open>
  C4 as stated fails: the claim does not exclude a custom accumulator, and line 59 gives
  it precedence over Append; with an accumulator that adds nothing the output is empty.
\<close>

theorem custom_accumulator_overrides_append:
  "on_error discarding_config = CollectAsEntry \<and> \<not> extend_result discarding_config \<and>
   front_num discarding_config = 0 \<and> return_output discarding_config \<and>
   initial_value discarding_config = None \<and>
   fst (parallel_map (ListArg [PyInt 2, PyInt 0, PyInt 4]) ten_div discarding_config [] start)
     = Inr (Some Created) \<and>
   created (snd (parallel_map (ListArg [PyInt 2, PyInt 0, PyInt 4]) ten_div discarding_config [] start))
     = []"
  by (simp add: discarding_config_def on_error_def eval_defs)

text \<open>
  C4, as amended. Under the policy CollectAsEntry, in Append mode with no custom
  accumulator, no warm-up, no initial value, the output returned and more than one
  worker, for inputs that fit the calling convention: the call returns a new list of
  exactly as many entries as there are inputs, and entry \<open>i\<close> is the value of the work
  function on input \<open>i\<close>, or the exception object when the work function fails there.
  (With one worker the serial loop raises instead: see C2.)
\<close>

theorem collected_errors_in_place:
  assumes "on_error c = CollectAsEntry"
    and "\<not> extend_result c" "add_func c = None"
    and "front_num c = 0" "return_output c" "initial_value c = None"
    and "1 < n_jobs c"
    and "\<forall>a \<in> set (elements its). fits (use_kwargs c) a"
  shows "fst (parallel_map its f c picks s) = Inr (Some Created) \<and>
    length (created (snd (parallel_map its f c picks s))) = length (elements its) \<and>
    (\<forall>i < length (elements its).
       created (snd (parallel_map its f c picks s)) ! i =
         (case outcome f (use_kwargs c) (elements its ! i) of Inl e \<Rightarrow> PyExc e | Inr v \<Rightarrow> v))"
proof -
  from assms(1) have pol: "\<not> raise_errors c" and inc: "include_errors c"
    by (auto simp: on_error_def split: if_splits)
  have "created (snd (parallel_map its f c picks s))
      = map entry (map (outcome f (use_kwargs c)) (elements its))"
    using pooled_collection [OF pol assms(2-8), of f picks s] inc by (simp add: kept_def)
  moreover have "fst (parallel_map its f c picks s) = Inr (Some Created)"
    using pooled_collection [OF pol assms(2-8), of f picks s] by simp
  ultimately show ?thesis by (simp add: entry_def)
qed

text \<open>
  The inputs \<^verbatim>\<open>[2, 0, 4]\<close> under \<^verbatim>\<open>lambda x: 10 // x\<close> with two workers: the
  output is \<^verbatim>\<open>[5, <ZeroDivisionError>, 2]\<close>.
\<close>

theorem collected_errors_in_place_witness:
  "fst (parallel_map (ListArg [PyInt 2, PyInt 0, PyInt 4]) ten_div pooled_collect_config [1] start)
     = Inr (Some Created) \<and>
   length (created (snd (parallel_map (ListArg [PyInt 2, PyInt 0, PyInt 4]) ten_div
     pooled_collect_config [1] start))) = 3 \<and>
   created (snd (parallel_map (ListArg [PyInt 2, PyInt 0, PyInt 4]) ten_div
     pooled_collect_config [1] start)) ! 0 = PyInt 5 \<and>
   created (snd (parallel_map (ListArg [PyInt 2, PyInt 0, PyInt 4]) ten_div
     pooled_collect_config [1] start)) ! 1 = PyExc ZeroDivisionError \<and>
   created (snd (parallel_map (ListArg [PyInt 2, PyInt 0, PyInt 4]) ten_div
     pooled_collect_config [1] start)) ! 2 = PyInt 2"
proof -
  let ?its = "ListArg [PyInt 2, PyInt 0, PyInt 4]" and ?c = pooled_collect_config
  have pol: "on_error ?c = CollectAsEntry"
    by (simp add: on_error_def pooled_collect_config_def defaults_def)
  have mode: "\<not> extend_result ?c" "add_func ?c = None"
    and rest: "front_num ?c = 0" "return_output ?c" "initial_value ?c = None" "1 < n_jobs ?c"
    by (simp_all add: pooled_collect_config_def defaults_def)
  have fit: "\<forall>a \<in> set (elements ?its). fits (use_kwargs ?c) a"
    by (simp add: fits_def bind_args_def pooled_collect_config_def defaults_def elements_def)
  note th = collected_errors_in_place [OF pol mode rest fit, of ten_div "[1]" start]
  have kw: "use_kwargs ?c = False" by (simp add: pooled_collect_config_def defaults_def)
  have len: "length (elements ?its) = 3" by (simp add: elements_def)
  from th have at: "i < 3 \<Longrightarrow>
      created (snd (parallel_map ?its ten_div ?c [1] start)) ! i =
        (case outcome ten_div False (elements ?its ! i) of Inl e \<Rightarrow> PyExc e | Inr v \<Rightarrow> v)" for i
    by (simp add: len kw)
  have "created (snd (parallel_map ?its ten_div ?c [1] start)) ! 0 = PyInt 5"
    using at [of 0] by (simp add: elements_def outcome_def bind_args_def)
  moreover have "created (snd (parallel_map ?its ten_div ?c [1] start)) ! 1 = PyExc ZeroDivisionError"
    using at [of 1] by (simp add: elements_def outcome_def bind_args_def)
  moreover have "created (snd (parallel_map ?its ten_div ?c [1] start)) ! 2 = PyInt 2"
    using at [of 2] by (simp add: elements_def outcome_def bind_args_def)
  ultimately show ?thesis using th by (simp add: len)
qed

subsection \<open>The policy Suppress\<close>

text \<open>
  C5 as stated fails: the claim does not exclude a custom accumulator; with one that
  inserts at the front, the successful results come out in reverse order.
\<close>

theorem custom_accumulator_reorders:
  "on_error prepending_config = Suppress \<and> \<not> extend_result prepending_config \<and>
   front_num prepending_config = 0 \<and> return_output prepending_config \<and>
   initial_value prepending_config = None \<and>
   fst (parallel_map (ListArg [PyInt 2, PyInt 0, PyInt 4]) ten_div prepending_config [] start)
     = Inr (Some Created) \<and>
   created (snd (parallel_map (ListArg [PyInt 2, PyInt 0, PyInt 4]) ten_div prepending_config [] start))
     = [PyInt 2, PyInt 5]"
  by (simp add: prepending_config_def on_error_def eval_defs)

text \<open>
  C5, as amended. Under the policy Suppress, in Append mode with no custom accumulator,
  no warm-up, no initial value, the output returned and more than one worker, for
  inputs that fit the calling convention: the call raises nothing and returns a new
  list that holds the values of the inputs on which the work function succeeds, in
  input order, and nothing else; its length is the number of inputs less the number of
  failing inputs. (With one worker the serial loop raises instead: see C2.)
\<close>

theorem suppressed_errors_dropped:
  assumes "on_error c = Suppress"
    and "\<not> extend_result c" "add_func c = None"
    and "front_num c = 0" "return_output c" "initial_value c = None"
    and "1 < n_jobs c"
    and "\<forall>a \<in> set (elements its). fits (use_kwargs c) a"
  shows "fst (parallel_map its f c picks s) = Inr (Some Created) \<and>
    created (snd (parallel_map its f c picks s))
      = values_of (map (outcome f (use_kwargs c)) (elements its)) \<and>
    length (created (snd (parallel_map its f c picks s)))
      = length (elements its) - length (filter (\<lambda>a. isl (outcome f (use_kwargs c) a)) (elements its))"
proof -
  from assms(1) have pol: "\<not> raise_errors c" and inc: "\<not> include_errors c"
    by (auto simp: on_error_def split: if_splits)
  have c: "created (snd (parallel_map its f c picks s))
      = values_of (map (outcome f (use_kwargs c)) (elements its))"
    using pooled_collection [OF pol assms(2-8), of f picks s] inc by (simp add: kept_def)
  have f: "fst (parallel_map its f c picks s) = Inr (Some Created)"
    using pooled_collection [OF pol assms(2-8), of f picks s] by simp
  have "length (filter isl (map (outcome f (use_kwargs c)) (elements its)))
      = length (filter (\<lambda>a. isl (outcome f (use_kwargs c) a)) (elements its))"
    by (simp add: filter_map comp_def)
  with c f show ?thesis by (simp add: length_values_of)
qed

text \<open>
  The inputs \<^verbatim>\<open>[2, 0, 4]\<close> under \<^verbatim>\<open>lambda x: 10 // x\<close> with two workers: the
  output is \<^verbatim>\<open>[5, 2]\<close>.
\<close>

theorem suppressed_errors_dropped_witness:
  "fst (parallel_map (ListArg [PyInt 2, PyInt 0, PyInt 4]) ten_div pooled_suppress_config [1] start)
     = Inr (Some Created) \<and>
   created (snd (parallel_map (ListArg [PyInt 2, PyInt 0, PyInt 4]) ten_div
     pooled_suppress_config [1] start)) = [PyInt 5, PyInt 2] \<and>
   length (created (snd (parallel_map (ListArg [PyInt 2, PyInt 0, PyInt 4]) ten_div
     pooled_suppress_config [1] start))) = 3 - 1"
proof -
  let ?its = "ListArg [PyInt 2, PyInt 0, PyInt 4]" and ?c = pooled_suppress_config
  have pol: "on_error ?c = Suppress"
    by (simp add: on_error_def pooled_suppress_config_def defaults_def)
  have mode: "\<not> extend_result ?c" "add_func ?c = None"
    and rest: "front_num ?c = 0" "return_output ?c" "initial_value ?c = None" "1 < n_jobs ?c"
    by (simp_all add: pooled_suppress_config_def defaults_def)
  have fit: "\<forall>a \<in> set (elements ?its). fits (use_kwargs ?c) a"
    by (simp add: fits_def bind_args_def pooled_suppress_config_def defaults_def elements_def)
  note th = suppressed_errors_dropped [OF pol mode rest fit, of ten_div "[1]" start]
  have kw: "use_kwargs ?c = False" by (simp add: pooled_suppress_config_def defaults_def)
  have vals: "values_of (map (outcome ten_div False) (elements ?its)) = [PyInt 5, PyInt 2]"
    by (simp add: elements_def outcome_def bind_args_def)
  have n: "length (elements ?its) - length (filter (\<lambda>a. isl (outcome ten_div False a)) (elements ?its))
      = 3 - 1"
    by (simp add: elements_def outcome_def bind_args_def)
  from th show ?thesis unfolding kw vals n .
qed

subsection \<open>Failures in the warm-up\<close>

text \<open>
  C6. Whatever the configuration and the error policy, when the work function fails on
  one of the first \<^verbatim>\<open>front_num\<close> inputs, the call raises the error of the first input
  that fails. Nothing is returned; the work function has been invoked on the inputs up
  to that one and on no other, no output list has been created and nothing has been
  dispatched or shown: the state differs from the initial one in the invocations only.
\<close>

theorem warm_up_failure_propagates:
  assumes i: "i < nat (front_num c)" "i < length (elements its)"
    and fails: "outcome f (use_kwargs c) (elements its ! i) = Inl e"
    and first: "\<forall>j < i. \<not> isl (outcome f (use_kwargs c) (elements its ! j))"
  shows "parallel_map its f c picks s =
    (Inl e, s\<lparr>calls := calls s @ bound (use_kwargs c) (take (Suc i) (elements its))\<rparr>)"
proof -
  let ?xs = "elements its"
  from i(1) have pos: "0 \<le> front_num c" by simp
  have fp: "front_part its c = take (nat (front_num c)) ?xs"
    using pos by (simp add: front_part_def elements_def slice_to_def split: iterables.splits)
  have il: "i < length (front_part its c)" using i by (simp add: fp)
  have nth: "front_part its c ! i = ?xs ! i" using i by (simp add: fp)
  have tk: "take i (front_part its c) = take i ?xs" using i by (simp add: fp min_def)
  have split: "front_part its c = take i ?xs @ ?xs ! i # drop (Suc i) (front_part its c)"
    using id_take_nth_drop [OF il] by (simp only: nth tk)
  have pre: "\<forall>a \<in> set (take i ?xs). \<not> isl (outcome f (use_kwargs c) a)"
  proof
    fix a assume "a \<in> set (take i ?xs)"
    then obtain j where "j < length (take i ?xs)" "a = take i ?xs ! j"
      by (auto simp: in_set_conv_nth)
    with i(2) first show "\<not> isl (outcome f (use_kwargs c) a)" by simp
  qed
  have "take i ?xs @ [?xs ! i] = take (Suc i) ?xs"
    using i(2) by (simp add: take_Suc_conv_app_nth)
  with warm_up_first_failure [OF pre fails split, of s]
  show ?thesis by (simp add: parallel_map_def)
qed

text \<open>
  The inputs \<^verbatim>\<open>[1, 0, 2]\<close> with two warm-up inputs, under the policy Suppress.
\<close>

theorem warm_up_failure_propagates_witness:
  "on_error suppress_config = Suppress \<and>
   parallel_map (ListArg [PyInt 1, PyInt 0, PyInt 2]) ten_div suppress_config [] start =
     (Inl ZeroDivisionError, start\<lparr>calls := [Positional (PyInt 1), Positional (PyInt 0)]\<rparr>)"
proof -
  let ?its = "ListArg [PyInt 1, PyInt 0, PyInt 2]"
  have i: "1 < nat (front_num suppress_config)" "1 < length (elements ?its)"
    by (simp_all add: suppress_config_def defaults_def elements_def)
  have fails: "outcome ten_div (use_kwargs suppress_config) (elements ?its ! 1) = Inl ZeroDivisionError"
    by (simp add: suppress_config_def defaults_def elements_def outcome_def bind_args_def)
  have first: "\<forall>j < 1. \<not> isl (outcome ten_div (use_kwargs suppress_config) (elements ?its ! j))"
    by (simp add: suppress_config_def defaults_def elements_def outcome_def bind_args_def)
  have calls: "calls start @ bound (use_kwargs suppress_config) (take (Suc 1) (elements ?its))
      = [Positional (PyInt 1), Positional (PyInt 0)]"
    by (simp add: suppress_config_def defaults_def elements_def bind_args_def start_def)
  have pol: "on_error suppress_config = Suppress"
    by (simp add: on_error_def suppress_config_def defaults_def)
  show ?thesis
    using warm_up_failure_propagates [OF i fails first, of "[]" start] pol
    by (simp only: calls simp_thms)
qed

subsection \<open>Return value and invocations\<close>

text \<open>
  C7 as stated fails: with \<^verbatim>\<open>return_output = False\<close> a failure in the warm-up ends
  the call, and the work function is never invoked on the inputs after it.
\<close>

theorem warm_up_failure_stops_invocations:
  "\<not> return_output effects_config \<and>
   fst (parallel_map (ListArg [PyInt 0, PyInt 1]) ten_div effects_config [] start)
     = Inl ZeroDivisionError \<and>
   calls (snd (parallel_map (ListArg [PyInt 0, PyInt 1]) ten_div effects_config [] start))
     = [Positional (PyInt 0)]"
  by (simp add: effects_config_def eval_defs)

text \<open>
  C7, as amended. Whenever the call returns (raises nothing), the work function has
  been invoked exactly once on every input, and the value returned is None when
  \<^verbatim>\<open>return_output\<close> is false, and otherwise the output list itself: the caller's own
  \<^verbatim>\<open>initial_value\<close> object when it is a non-empty list, the list created on line 67
  when it is not; no copy is made.
\<close>

theorem returns_after_every_input:
  assumes "fst (parallel_map its f c picks s) = Inr r"
  shows "r = (if return_output c then Some (fst (make_output c s)) else None) \<and>
    mset (calls (snd (parallel_map its f c picks s)))
      = mset (calls s) + mset (bound (use_kwargs c) (elements its)) \<and>
    length (bound (use_kwargs c) (elements its)) = length (elements its)"
proof -
  let ?kw = "use_kwargs c"
  let ?fr = "front_part its c" and ?re = "rest_part its c"
  obtain r1 s1 where w0: "warm_up its f c s = (r1, s1)" by (cases "warm_up its f c s")
  with assms obtain front rest where r1: "r1 = Inr (front, rest)"
    by (cases r1) (auto simp: parallel_map_def)
  from warm_up_returns [of its f c s front rest] w0 r1
  have rest: "rest = ?re" and s1: "s1 = s\<lparr>calls := calls s @ bound ?kw ?fr\<rparr>"
    and okf: "\<forall>a \<in> set ?fr. \<not> isl (outcome f ?kw a)"
    by simp_all
  have w: "warm_up its f c s = (Inr (front, ?re), s1)" using w0 r1 rest by simp
  obtain out s2 where mk: "make_output c s1 = (out, s2)" by (cases "make_output c s1")
  have out: "out = fst (make_output c s)"
    using make_output_ref [of s1 s c] mk s1 by simp
  have c2: "calls s2 = calls s1" using make_output_calls [of c s1] mk by simp
  obtain e3 s3 where ad: "add_each c front out s2 = (e3, s3)" by (cases "add_each c front out s2")
  have c3: "calls s3 = calls s @ bound ?kw ?fr"
    using add_each_calls [of c front out s2] ad c2 s1 by simp
  from assms have e3: "e3 = None" by (cases e3) (simp_all add: parallel_map_def w mk ad)
  have fitf: "\<forall>a \<in> set ?fr. fits ?kw a" using okf by (blast intro: succeeds_fits)
  have all: "bound ?kw ?fr @ bound ?kw ?re = bound ?kw (elements its)"
    by (simp only: bound_append [symmetric] front_rest)
  have main: "r = (if return_output c then Some out else None) \<and>
      mset (calls (snd (parallel_map its f c picks s))) = mset (calls s3) + mset (bound ?kw ?re) \<and>
      (\<forall>a \<in> set ?re. fits ?kw a)"
  proof (cases "n_jobs c = 1")
    case True
    obtain e4 s4 where sl: "serial_loop f c ?re out s3 = (e4, s4)"
      by (cases "serial_loop f c ?re out s3")
    from assms have e4: "e4 = None" and r: "r = (if return_output c then Some out else None)"
      by (cases e4; simp add: parallel_map_def w mk ad e3 True sl)+
    from serial_loop_returns [of f c ?re out s3] sl e4
    have "\<forall>a \<in> set ?re. \<not> isl (outcome f ?kw a)" and "calls s4 = calls s3 @ bound ?kw ?re"
      by simp_all
    then have "\<forall>a \<in> set ?re. fits ?kw a" and "mset (calls s4) = mset (calls s3) + mset (bound ?kw ?re)"
      by (auto intro: succeeds_fits)
    with r show ?thesis by (simp add: parallel_map_def w mk ad e3 True sl e4)
  next
    case False
    obtain r4 s4 where p: "pool_phase f c ?re picks s3 = (r4, s4)"
      by (cases "pool_phase f c ?re picks s3")
    from assms obtain rs where r4: "r4 = Inr rs"
      by (cases r4) (simp_all add: parallel_map_def w mk ad e3 False p)
    from pool_phase_returns [of f c ?re picks s3 rs s4] p r4
    have fit: "\<forall>a \<in> set ?re. fits ?kw a"
      and c4: "mset (calls s4) = mset (calls s3) + mset (bound ?kw ?re)" by simp_all
    show ?thesis
    proof (cases "return_output c")
      case ret: False
      with assms have "r = None" by (simp add: parallel_map_def w mk ad e3 False p r4)
      with ret fit c4 show ?thesis by (simp add: parallel_map_def w mk ad e3 False p r4)
    next
      case ret: True
      obtain e5 s5 where h: "harvest c rs out s4 = (e5, s5)" by (cases "harvest c rs out s4")
      from assms have e5: "e5 = None" and r: "r = Some out"
        by (cases e5; simp add: parallel_map_def w mk ad e3 False p r4 ret h)+
      have "calls s5 = calls s4" using harvest_calls [of c rs out s4] h by simp
      with r ret fit c4 show ?thesis by (simp add: parallel_map_def w mk ad e3 False p r4 h e5)
    qed
  qed
  from main fitf have "\<forall>a \<in> set (elements its). fits ?kw a"
    by (metis Un_iff front_rest set_append)
  then have len: "length (bound ?kw (elements its)) = length (elements its)"
    by (rule length_bound_fits)
  from main c3 all out len show ?thesis
    by (simp add: mset_append [symmetric] del: mset_append)
qed

text \<open>
  Three inputs, no output returned: None, and one invocation for each input. Two
  inputs with a non-empty initial value: the caller's list is what is returned.
\<close>

theorem returns_after_every_input_witness:
  "fst (parallel_map (ListArg [PyInt 1, PyInt 2, PyInt 5]) ten_div effects_config [1] start) = Inr None \<and>
   mset (calls (snd (parallel_map (ListArg [PyInt 1, PyInt 2, PyInt 5]) ten_div effects_config [1] start)))
     = mset [Positional (PyInt 1), Positional (PyInt 2), Positional (PyInt 5)] \<and>
   fst (parallel_map (ListArg [PyInt 1, PyInt 2]) square (seeded_config\<lparr>raise_errors := False\<rparr>) [] seeded)
     = Inr (Some (Given 0))"
proof -
  let ?its = "ListArg [PyInt 1, PyInt 2, PyInt 5]" and ?c = effects_config
  have r: "fst (parallel_map ?its ten_div ?c [1] start) = Inr None"
    by (simp add: effects_config_def eval_defs)
  have b: "mset (calls start) + mset (bound (use_kwargs ?c) (elements ?its))
      = mset [Positional (PyInt 1), Positional (PyInt 2), Positional (PyInt 5)]"
    by (simp add: effects_config_def defaults_def elements_def bind_args_def start_def)
  let ?its2 = "ListArg [PyInt 1, PyInt 2]" and ?c2 = "seeded_config\<lparr>raise_errors := False\<rparr>"
  have r2: "fst (parallel_map ?its2 square ?c2 [] seeded) = Inr (Some (Given 0))"
    by (simp add: seeded_config_def seeded_def eval_defs)
  have m2: "return_output ?c2" "fst (make_output ?c2 seeded) = Given 0"
    by (simp_all add: seeded_config_def seeded_def defaults_def make_output_def)
  from returns_after_every_input [OF r] returns_after_every_input [OF r2] r r2 b m2
  show ?thesis by simp
qed

subsection \<open>Configurations outside the preconditions\<close>

text \<open>
  C8 as stated fails: a negative \<^verbatim>\<open>front_num\<close> is a slice bound counted from the end of
  the list and the call returns the complete output; with \<^verbatim>\<open>n_jobs = 0\<close> the work
  function is invoked on the warm-up input before anything is raised.
\<close>

theorem invalid_configuration_not_rejected:
  "front_num negative_front_config < 0 \<and>
   fst (parallel_map (ListArg [PyInt 1, PyInt 2, PyInt 3]) square negative_front_config [] start)
     = Inr (Some Created) \<and>
   created (snd (parallel_map (ListArg [PyInt 1, PyInt 2, PyInt 3]) square negative_front_config [] start))
     = [PyInt 1, PyInt 4, PyInt 9] \<and>
   n_jobs no_workers_config < 1 \<and>
   calls (snd (parallel_map (ListArg [PyInt 1, PyInt 2, PyInt 3]) square no_workers_config [] start))
     = [Positional (PyInt 1)]"
  by (simp add: negative_front_config_def no_workers_config_def eval_defs)

text \<open>
  C8, as amended. The code does not validate its configuration. With \<^verbatim>\<open>n_jobs < 1\<close>
  the call always raises, but only after the warm-up: the work function has been
  invoked exactly as the warm-up invokes it, and when the warm-up raises nothing (and
  accumulation is in Append mode with no custom accumulator) the error is the
  ValueError of the creation of the pool.
\<close>

theorem invalid_worker_count:
  assumes "n_jobs c < 1"
  shows "isl (fst (parallel_map its f c picks s)) \<and>
    calls (snd (parallel_map its f c picks s)) = calls (snd (warm_up its f c s)) \<and>
    (add_func c = None \<and> \<not> extend_result c \<and> \<not> isl (fst (warm_up its f c s))
       \<longrightarrow> fst (parallel_map its f c picks s) = Inl ValueError)"
proof (cases "warm_up its f c s")
  case (Pair r s1)
  show ?thesis
  proof (cases r)
    case (Inl e)
    with Pair show ?thesis by (simp add: parallel_map_def)
  next
    case (Inr fr)
    obtain front rest where fr: "fr = (front, rest)" by (cases fr)
    obtain out s2 where mk: "make_output c s1 = (out, s2)" by (cases "make_output c s1")
    obtain e3 s3 where ad: "add_each c front out s2 = (e3, s3)" by (cases "add_each c front out s2")
    have c2: "calls s2 = calls s1" using make_output_calls [of c s1] mk by simp
    have c3: "calls s3 = calls s1" using add_each_calls [of c front out s2] ad c2 by simp
    from assms have ne: "n_jobs c \<noteq> 1" and le: "n_jobs c \<le> 0" by simp_all
    have pool: "pool_phase f c rest picks s3 = (Inl ValueError, s3)"
      using le by (simp add: pool_phase_def)
    have e3: "add_func c = None \<and> \<not> extend_result c \<longrightarrow> e3 = None"
      using ad by (auto simp: add_each_append)
    show ?thesis
      using ne c3 e3
      by (cases e3) (auto simp: parallel_map_def Pair Inr fr mk ad pool)
  qed
qed

text \<open>
  No worker and one warm-up input: ValueError, after the work function has been invoked
  on the first input.
\<close>

theorem invalid_worker_count_witness:
  "isl (fst (parallel_map (ListArg [PyInt 1, PyInt 2, PyInt 3]) square no_workers_config [] start)) \<and>
   calls (snd (parallel_map (ListArg [PyInt 1, PyInt 2, PyInt 3]) square no_workers_config [] start))
     = [Positional (PyInt 1)] \<and>
   fst (parallel_map (ListArg [PyInt 1, PyInt 2, PyInt 3]) square no_workers_config [] start)
     = Inl ValueError"
proof -
  let ?its = "ListArg [PyInt 1, PyInt 2, PyInt 3]"
  have n: "n_jobs no_workers_config < 1" by (simp add: no_workers_config_def defaults_def)
  have w: "warm_up ?its square no_workers_config start =
      (Inr ([PyInt 1], [PyInt 2, PyInt 3]), start\<lparr>calls := [Positional (PyInt 1)]\<rparr>)"
    by (simp add: no_workers_config_def eval_defs)
  have m: "add_func no_workers_config = None \<and> \<not> extend_result no_workers_config"
    by (simp add: no_workers_config_def defaults_def)
  show ?thesis
    using invalid_worker_count [OF n, of ?its square "[]" start] m
    by (simp add: w)
qed

subsection \<open>The progress flag\<close>

text \<open>
  C9. Two calls that differ in \<^verbatim>\<open>show_progress_bar\<close> only (same inputs, work function,
  configuration and completion order) return the same value or raise the same error,
  and leave the same lists and the same invocations of the work function behind; they
  differ at most in what is shown.
\<close>

theorem progress_flag_is_cosmetic:
  "fst (parallel_map its f (c\<lparr>show_progress_bar := b1\<rparr>) picks s)
     = fst (parallel_map its f (c\<lparr>show_progress_bar := b2\<rparr>) picks s) \<and>
   agree (snd (parallel_map its f (c\<lparr>show_progress_bar := b1\<rparr>) picks s))
         (snd (parallel_map its f (c\<lparr>show_progress_bar := b2\<rparr>) picks s))"
  using parallel_map_flag [where b = b1 and c = c and its = its and f = f and picks = picks and s = s]
    parallel_map_flag [where b = b2 and c = c and its = its and f = f and picks = picks and s = s]
  by (simp add: agree_def)

subsection \<open>No output, several workers\<close>

text \<open>
  C10. With \<^verbatim>\<open>return_output = False\<close> and more than one worker, what the call does
  is decided by the warm-up and by the submission alone: it raises the error of the
  warm-up, if any; it raises TypeError when a remaining input cannot be submitted (it
  is not a mapping although \<^verbatim>\<open>use_kwargs\<close> is set); in every other case it returns
  None. The outcomes of the tasks play no role, whatever the error policy.
\<close>

theorem no_harvest_without_output:
  assumes "\<not> return_output c" "1 < n_jobs c"
  shows "fst (parallel_map its f c picks s) =
    (case fst (warm_up its f c s) of
       Inl e \<Rightarrow> Inl e
     | Inr (front, rest) \<Rightarrow>
         if \<forall>a \<in> set rest. fits (use_kwargs c) a then Inr None else Inl TypeError)"
proof (cases "warm_up its f c s")
  case (Pair r s1)
  show ?thesis
  proof (cases r)
    case (Inl e)
    with Pair show ?thesis by (simp add: parallel_map_def)
  next
    case (Inr fr)
    obtain front rest where fr: "fr = (front, rest)" by (cases fr)
    obtain out s2 where mk: "make_output c s1 = (out, s2)" by (cases "make_output c s1")
    from assms(2) have pos: "0 < n_jobs c" and ne: "n_jobs c \<noteq> 1" by simp_all
    obtain r4 s4 where p: "pool_phase f c rest picks s2 = (r4, s4)"
      by (cases "pool_phase f c rest picks s2")
    have r4: "r4 = (if \<forall>a \<in> set rest. fits (use_kwargs c) a
        then Inr (map (outcome f (use_kwargs c)) rest) else Inl TypeError)"
      using pool_phase_result [OF pos, of f rest picks s2] p by simp
    show ?thesis
      using assms(1) ne
      by (simp add: parallel_map_def Pair Inr fr mk add_each_no_output p r4)
  qed
qed

text \<open>
  The inputs \<^verbatim>\<open>[2, 0, 4]\<close> under \<^verbatim>\<open>lambda x: 10 // x\<close> with the policy Raise: the
  failure of the second task is not raised.
\<close>

theorem no_harvest_without_output_witness:
  "on_error no_output_config = Raise \<and>
   fst (parallel_map (ListArg [PyInt 2, PyInt 0, PyInt 4]) ten_div no_output_config [] start) = Inr None"
proof -
  let ?its = "ListArg [PyInt 2, PyInt 0, PyInt 4]"
  have h: "\<not> return_output no_output_config" "1 < n_jobs no_output_config"
    by (simp_all add: no_output_config_def defaults_def)
  have w: "fst (warm_up ?its ten_div no_output_config start) = Inr ([], [PyInt 2, PyInt 0, PyInt 4])"
    by (simp add: no_output_config_def eval_defs)
  have fit: "\<forall>a \<in> set [PyInt 2, PyInt 0, PyInt 4]. fits (use_kwargs no_output_config) a"
    by (simp add: fits_def bind_args_def no_output_config_def defaults_def)
  have pol: "on_error no_output_config = Raise"
    by (simp add: on_error_def no_output_config_def defaults_def)
  show ?thesis
    using no_harvest_without_output [OF h, of ?its ten_div "[]" start] fit pol
    by (simp add: w)
qed

end
